theory Spec2Isabelle
  imports Main "HOL-Library.Multiset"
begin

section \<open>Deck utilities of the analyzer\<close>

subsection \<open>compareDecks\<close>

text \<open>
  The inner \<^verbatim>\<open>while (index < deck2.length)\<close> loop of \<^verbatim>\<open>compareDecks\<close>: scan the
  second deck from the front, splice out the first element equal to the current card and
  stop; a deck without a match is left as it is. The loose comparison of a value with the
  one-element array returned by \<^verbatim>\<open>splice\<close> is equality of the value with that element,
  for strings as for small integers.
\<close>

fun spliceFirst :: "'a \<Rightarrow> 'a list \<Rightarrow> 'a list" where
  "spliceFirst currentCard [] = []"
| "spliceFirst currentCard (compareCard # deck2) =
     (if compareCard = currentCard then deck2
      else compareCard # spliceFirst currentCard deck2)"

text \<open>
  The outer \<^verbatim>\<open>while (deck1.length > 0)\<close> loop: take the cards of the first deck from
  the front, one at a time; the value is what remains of the second deck.
\<close>

fun compareLoop :: "'a list \<Rightarrow> 'a list \<Rightarrow> 'a list" where
  "compareLoop [] deck2 = deck2"
| "compareLoop (currentCard # deck1) deck2 = compareLoop deck1 (spliceFirst currentCard deck2)"

definition compareDecks :: "'a list \<Rightarrow> 'a list \<Rightarrow> bool" where
  "compareDecks deck1Arr deck2Arr =
     (if length deck1Arr \<noteq> length deck2Arr then False
      else if length (compareLoop deck1Arr deck2Arr) = 0 then True
      else False)"

subsection \<open>removeFromDeck\<close>

text \<open>
  The inner \<^verbatim>\<open>while (count2 < deckArr.length)\<close> loop of \<^verbatim>\<open>removeFromDeck\<close> for one
  item: every element of the deck equal to the item is spliced out and pushed on the
  removed items, the index only advancing past the others. The value is the pair of the
  elements removed, in the order they were met, and the deck that is left.
\<close>

fun spliceAll :: "'a \<Rightarrow> 'a list \<Rightarrow> 'a list \<times> 'a list" where
  "spliceAll item [] = ([], [])"
| "spliceAll item (d # deckArr) =
     (let (removed, rest) = spliceAll item deckArr
      in if item = d then (d # removed, rest) else (removed, d # rest))"

text \<open>
  The outer loop over \<^verbatim>\<open>removeItems\<close>, threading the deck (mutated in place by the
  source) and the array of removed items.
\<close>

fun removeLoop :: "'a list \<Rightarrow> 'a list \<Rightarrow> 'a list \<Rightarrow> 'a list \<times> 'a list" where
  "removeLoop [] deckArr removedItems = (removedItems, deckArr)"
| "removeLoop (item # removeItems) deckArr removedItems =
     (let (removed, rest) = spliceAll item deckArr
      in removeLoop removeItems rest (removedItems @ removed))"

text \<open>
  \<^verbatim>\<open>removeFromDeck\<close> returns a boolean and changes \<^verbatim>\<open>deckArr\<close> in place: the model
  returns the boolean together with the deck after the call.
\<close>

definition removeFromDeck :: "'a list \<Rightarrow> 'a list \<Rightarrow> bool \<times> 'a list" where
  "removeFromDeck removeItems deckArr =
     (let itemsToRemove = length removeItems;
          (removedItems, deckArr') = removeLoop removeItems deckArr []
      in (if length removedItems = itemsToRemove then True else False, deckArr'))"

section \<open>Cards and the hand scorer\<close>

text \<open>
  A \<^verbatim>\<open>CypherPokerCard\<close>: the plaintext mapping, and the properties copied from the card
  information of the game's deck definition that the analyzer reads (\<^verbatim>\<open>suit\<close>,
  \<^verbatim>\<open>value\<close>, \<^verbatim>\<open>highvalue\<close>). The field \<^verbatim>\<open>value\<close> is named \<open>cardValue\<close> here.
\<close>

record card =
  mapping :: string
  suit :: string
  cardValue :: int
  highvalue :: int

subsection \<open>straightType\<close>

text \<open>
  The loop \<^verbatim>\<open>for (count = 1; count < 10; count++)\<close> of \<^verbatim>\<open>straightType\<close>, over the
  counts still to try: the first count whose window \<open>count, \<dots>, count + 4\<close> compares
  equal to the card values is returned.
\<close>

fun straightLoop :: "int list \<Rightarrow> int list \<Rightarrow> int option" where
  "straightLoop cardValues [] = None"
| "straightLoop cardValues (cnt # cnts) =
     (if compareDecks cardValues [cnt, cnt + 1, cnt + 2, cnt + 3, cnt + 4]
      then Some cnt
      else straightLoop cardValues cnts)"

definition straightType :: "int list \<Rightarrow> int" where
  "straightType cardValues =
     (if length cardValues < 5 then 0
      else case straightLoop cardValues [1, 2, 3, 4, 5, 6, 7, 8, 9] of
             Some cnt \<Rightarrow> cnt
           | None \<Rightarrow> if compareDecks cardValues [10, 11, 12, 13, 1] then 10 else 0)"

subsection \<open>Grouping cards by a property\<close>

text \<open>
  \<^verbatim>\<open>groups[key].push(card)\<close>, creating the array when the key is new. The object is an
  association list in the order the keys were created.
\<close>

fun pushGroup :: "'k \<Rightarrow> 'v \<Rightarrow> ('k \<times> 'v list) list \<Rightarrow> ('k \<times> 'v list) list" where
  "pushGroup k v [] = [(k, [v])]"
| "pushGroup k v ((k', g) # groups) =
     (if k' = k then (k', g @ [v]) # groups else (k', g) # pushGroup k v groups)"

definition groupCards :: "('v \<Rightarrow> 'k) \<Rightarrow> 'v list \<Rightarrow> ('k \<times> 'v list) list" where
  "groupCards key hand = foldl (\<lambda>groups c. pushGroup (key c) c groups) [] hand"

text \<open>
  \<^verbatim>\<open>Object.entries\<close> of an object with numeric keys: the keys that are array indices
  (integers from 0 to \<open>2\<^sup>3\<^sup>2 - 2\<close>) come first, in ascending order, the others after
  them in the order of their creation.
\<close>

definition isArrayIndex :: "int \<Rightarrow> bool" where
  "isArrayIndex k = (0 \<le> k \<and> k \<le> 4294967294)"

definition objectEntries :: "(int \<times> 'v list) list \<Rightarrow> (int \<times> 'v list) list" where
  "objectEntries groups =
     sort_key fst (filter (\<lambda>g. isArrayIndex (fst g)) groups)
       @ filter (\<lambda>g. \<not> isArrayIndex (fst g)) groups"

subsection \<open>scoreHand\<close>

text \<open>\<^verbatim>\<open>getCardSum(cards)\<close> with its default \<^verbatim>\<open>high = true\<close>.\<close>

definition getCardSum :: "card list \<Rightarrow> int" where
  "getCardSum cards = foldl (\<lambda>sum c. sum + highvalue c) 0 cards"

text \<open>
  The loops over \<^verbatim>\<open>valueGroups\<close> that set \<^verbatim>\<open>valueAdjust\<close>: every group whose length
  is not \<open>n\<close> overwrites the adjustment with
  \<^verbatim>\<open>(cardSum * valueMultiplier * -1) + cardSum\<close>, so the last such group decides.
\<close>

definition adjustLoop ::
  "nat \<Rightarrow> int \<Rightarrow> (int \<times> card list) list \<Rightarrow> int \<Rightarrow> int" where
  "adjustLoop n valueMultiplier valueGroups valueAdjust =
     foldl (\<lambda>adjust g.
              if length (snd g) \<noteq> n
              then (getCardSum (snd g) * valueMultiplier * (-1)) + getCardSum (snd g)
              else adjust)
       valueAdjust valueGroups"

text \<open>The hand object that \<^verbatim>\<open>scoreHand\<close> updates: the hand, its score and its name.\<close>

record handObj =
  hand :: "card list"
  score :: int
  name :: "string option"

text \<open>
  The final computation of \<^verbatim>\<open>scoreHand\<close>: the sum of the high values (of the values
  when aces are low) where a multiplier was set, the greatest high value otherwise.
\<close>

definition handValueOf :: "card list \<Rightarrow> bool \<Rightarrow> int \<Rightarrow> int" where
  "handValueOf cards acesHigh valueMultiplier =
     (if valueMultiplier > 1
      then foldl (\<lambda>handValue c.
                    if acesHigh then handValue + highvalue c else handValue + cardValue c)
             0 cards
      else foldl (\<lambda>handValue c.
                    if handValue < highvalue c then highvalue c else handValue)
             0 cards)"

text \<open>
  The chain of tests of \<^verbatim>\<open>scoreHand\<close>, in the source's order; its value is the tuple
  \<open>(acesHigh, valueMultiplier, valueAdjust, name)\<close> the final computation reads.
\<close>

definition rankHand ::
  "card list \<Rightarrow> bool \<Rightarrow> int \<Rightarrow> (int \<times> card list) list
     \<Rightarrow> bool \<times> int \<times> int \<times> string option" where
  "rankHand cards flush straightVal valueGroups =
     (let royalflush = (straightVal = 10 \<and> flush);
          straight = (royalflush \<or> straightVal > 0);
          glen = (\<lambda>i. length (snd (valueGroups ! i)))
      in if royalflush then (True, 1000000000, 0, Some ''Royal Flush'')
         else if straight \<and> flush then
           (straightVal \<noteq> 1, 100000000, 0, Some ''Straight Flush'')
         else if length valueGroups = 2 \<and> length cards \<ge> 5 then
           (let (m, a, n) =
                  (if glen 0 = 4 \<or> glen 1 = 4
                   then (10000000, adjustLoop 4 10000000 valueGroups 0, Some ''Four of a Kind'')
                   else (1, 0, None))
            in if glen 0 = 3 \<or> glen 1 = 3
               then (True, 1000000, a, Some ''Full House'')
               else (True, m, a, n))
         else if flush \<and> \<not> straight then (True, 100000, 0, Some ''Flush'')
         else if straight \<and> \<not> flush then (straightVal \<noteq> 1, 10000, 0, Some ''Straight'')
         else if length valueGroups = 3 then
           (if glen 0 = 3 \<or> glen 1 = 3 \<or> glen 2 = 3
            then (True, 1000, adjustLoop 3 1000 valueGroups 0, Some ''Three of a Kind'')
            else (True, 100, adjustLoop 2 100 valueGroups 0, Some ''Two Pairs''))
         else if length valueGroups = 4 \<or> length valueGroups = 1 then
           (True, 15, adjustLoop 2 15 valueGroups 0, Some ''One Pair'')
         else (True, 1, 0, Some ''High Card''))"

text \<open>
  \<^verbatim>\<open>scoreHand(handObj)\<close> for a hand object whose \<^verbatim>\<open>hand\<close> is an array, as every
  caller passes it: the object comes back with its score and name set. The suit groups are
  only counted, so the order of their entries is not modelled.
\<close>

definition scoreHand :: "handObj \<Rightarrow> handObj" where
  "scoreHand h =
     (let cards = hand h;
          suitGroups = groupCards suit cards;
          valueGroups = objectEntries (groupCards cardValue cards);
          flush = (length suitGroups = 1 \<and> length cards = 5);
          valuesArr = map cardValue cards;
          straightVal = straightType valuesArr;
          (acesHigh, valueMultiplier, valueAdjust, n) =
             rankHand cards flush straightVal valueGroups;
          handValue = handValueOf cards acesHigh valueMultiplier
      in h\<lparr>score := (handValue * valueMultiplier) + valueAdjust,
           name := (case n of None \<Rightarrow> name h | Some s \<Rightarrow> Some s)\<rparr>)"

text \<open>The score \<^verbatim>\<open>scoreHand\<close> gives to five (or fewer) cards, starting from a fresh object.\<close>

definition scoreOf :: "card list \<Rightarrow> int" where
  "scoreOf cards = score (scoreHand \<lparr>hand = cards, score = -1, name = None\<rparr>)"

section \<open>The analyzer's data\<close>

type_synonym pid = string

type_synonym cardval = string

text \<open>
  The order in which \<^verbatim>\<open>for (var key in obj)\<close> visits the keys of an object, here an
  association list in the order of creation of its keys: first the keys that are array
  indices (the canonical decimal numerals of the integers from 0 to \<open>2\<^sup>3\<^sup>2 - 2\<close>), in
  ascending order, then the other keys in the order of their creation.
\<close>

definition isDigit :: "char \<Rightarrow> bool" where
  "isDigit c = (48 \<le> (of_char c :: int) \<and> (of_char c :: int) \<le> 57)"

definition indexOf :: "string \<Rightarrow> int" where
  "indexOf s = foldl (\<lambda>n c. 10 * n + (of_char c - 48)) 0 s"

definition isIndexKey :: "string \<Rightarrow> bool" where
  "isIndexKey s =
     (s \<noteq> [] \<and> list_all isDigit s \<and> (if hd s = CHR ''0'' then length s = 1 else True)
      \<and> indexOf s \<le> 4294967294)"

definition forIn :: "(string \<times> 'v) list \<Rightarrow> (string \<times> 'v) list" where
  "forIn obj =
     sort_key (\<lambda>e. indexOf (fst e)) (filter (\<lambda>e. isIndexKey (fst e)) obj)
       @ filter (\<lambda>e. \<not> isIndexKey (fst e)) obj"

text \<open>
  A copy of a \<^verbatim>\<open>CypherPokerPlayer\<close>, with the properties the analyzer reads. The type
  \<open>'k\<close> is the type of keypairs, which the analyzer only hands to the cryptosystem.
\<close>

record 'k player =
  privateID :: pid
  isDealer :: bool
  hasFolded :: bool
  keychain :: "'k list"
  accountAddress :: string

text \<open>An element of \<^verbatim>\<open>deck\<close>: a snapshot of the deck generation and encryption.\<close>

record snapshot =
  fromPID :: pid
  cards :: "cardval list"

datatype dealType = Select | Decrypt

text \<open>
  An element of \<^verbatim>\<open>deals[dealingPID]\<close>, as \<^verbatim>\<open>storeDeal\<close> builds it (properties
  \<^verbatim>\<open>fromPID\<close>, \<^verbatim>\<open>type\<close>, \<^verbatim>\<open>private\<close>, \<^verbatim>\<open>cards\<close>).
\<close>

record deal =
  dealFromPID :: pid
  dealType :: dealType
  dealPrivate :: bool
  dealCards :: "cardval list"

text \<open>
  The messages of the errors the analyzer throws; the parts the source concatenates into
  the text are the arguments.
\<close>

datatype message =
    KeychainsNotCommitted string
  | DeckEncryptionFailed nat pid
  | MultipleSequentialSelect
  | DuplicatesInSelect nat string string
  | FinalDecryptionDoesNotMap nat "string list" cardval
  | PreviousRoundMismatch nat string string

text \<open>A JavaScript \<^verbatim>\<open>Error\<close>; \<open>code\<close> is \<open>None\<close> when no \<^verbatim>\<open>code\<close> was assigned.\<close>

record jsError =
  message :: message
  code :: "nat option"

text \<open>
  What a function throws (or a promise is rejected with): an \<^verbatim>\<open>Error\<close> the analyzer
  created, or the \<^verbatim>\<open>TypeError\<close> of reading a property of \<^verbatim>\<open>undefined\<close> or
  \<^verbatim>\<open>null\<close>.
\<close>

datatype thrown = ErrorThrown jsError | TypeErrorThrown

text \<open>The \<^verbatim>\<open>error\<close> property of an analysis object.\<close>

datatype errorProp = ErrorUndefined | ErrorNull | ErrorSet jsError

text \<open>
  The \<^verbatim>\<open>analysis\<close> object, and the \<^verbatim>\<open>cardsObj\<close> that \<^verbatim>\<open>analyzeCards\<close> returns and
  \<^verbatim>\<open>scoreHands\<close> completes. The properties \<^verbatim>\<open>private\<close> and \<^verbatim>\<open>public\<close> are named
  \<open>privateOf\<close> and \<open>publicOf\<close>; \<^verbatim>\<open>private\<close> and \<^verbatim>\<open>hands\<close> are objects keyed by
  private ID, kept in the order of creation of their keys. A property that was never
  assigned is \<open>None\<close> (\<open>ErrorUndefined\<close> for \<^verbatim>\<open>error\<close>).
\<close>

record 'k analysis =
  privateOf :: "(pid \<times> card list) list"
  publicOf :: "card list"
  complete :: "bool option"
  error :: errorProp
  hands :: "(pid \<times> handObj list) list option"
  winningPlayers :: "'k player list option"
  winningHands :: "handObj list option"

datatype eventName = Analyzing | Analyzed | Scored

text \<open>
  The analyzer instance together with what it reads of its game: the game's players, own
  private ID and table ID. \<open>playersField\<close>, \<open>analysisField\<close> and \<open>timeoutField\<close> are
  the properties \<^verbatim>\<open>_players\<close>, \<^verbatim>\<open>_analysis\<close> and \<^verbatim>\<open>_keychainCommitTimeout\<close>,
  \<open>None\<close> while undefined (or null). \<open>keychains\<close> is the object \<^verbatim>\<open>_keychains\<close>: every
  access of the source creates the empty object first when the property is undefined, so
  the undefined property is the empty map. \<open>gameListeners\<close> and
  \<open>keychainListener\<close> tell whether the listeners added by the constructor are still
  registered; \<open>dispatched\<close> lists the events dispatched so far, the latest last.
\<close>

record 'k analyzer =
  gamePlayers :: "'k player list"
  ownPID :: pid
  tableID :: string
  playersField :: "'k player list option"
  keychains :: "pid \<rightharpoonup> 'k list"
  analysisField :: "'k analysis option"
  timeoutField :: "nat option"
  deck :: "snapshot list"
  mappedDeck :: "card list"
  deals :: "(pid \<times> deal list) list"
  active :: bool
  gameListeners :: bool
  keychainListener :: bool
  dispatched :: "eventName list"

text \<open>
  The cryptosystem of the game, \<^verbatim>\<open>cypherpoker.crypto.invoke\<close>: one function for
  \<^verbatim>\<open>"encrypt"\<close> and one for \<^verbatim>\<open>"decrypt"\<close>, each from the keypair handed over
  (\<open>None\<close> for \<^verbatim>\<open>undefined\<close>) and a value to the result.
\<close>

record 'k crypto =
  encrypt :: "'k option \<Rightarrow> cardval \<Rightarrow> cardval"
  decrypt :: "'k option \<Rightarrow> cardval \<Rightarrow> cardval"

subsection \<open>Getters\<close>

text \<open>The getter \<^verbatim>\<open>analysis\<close> creates the object on first use.\<close>

definition newAnalysis :: "'k analysis" where
  "newAnalysis = \<lparr>privateOf = [], publicOf = [], complete = Some False, error = ErrorNull,
     hands = None, winningPlayers = None, winningHands = None\<rparr>"

definition getAnalysis :: "'k analyzer \<Rightarrow> 'k analysis \<times> 'k analyzer" where
  "getAnalysis st =
     (case analysisField st of
        None \<Rightarrow> (newAnalysis, st\<lparr>analysisField := Some newAnalysis\<rparr>)
      | Some a \<Rightarrow> (a, st))"

definition refreshPlayers :: "'k analyzer \<Rightarrow> 'k analyzer" where
  "refreshPlayers st = st\<lparr>playersField := Some (gamePlayers st)\<rparr>"

definition getPlayers :: "'k analyzer \<Rightarrow> 'k player list \<times> 'k analyzer" where
  "getPlayers st =
     (case playersField st of
        None \<Rightarrow> (gamePlayers st, refreshPlayers st)
      | Some ps \<Rightarrow> (ps, st))"

text \<open>\<^verbatim>\<open>getPlayer(privateID)\<close> on the players array: the first match, or null.\<close>

definition getPlayer :: "'k player list \<Rightarrow> pid \<Rightarrow> 'k player option" where
  "getPlayer ps p = find (\<lambda>pl. privateID pl = p) ps"

text \<open>The getter \<^verbatim>\<open>keychainCommitTimeout\<close>, 10000 unless set.\<close>

definition keychainCommitTimeout :: "'k analyzer \<Rightarrow> nat" where
  "keychainCommitTimeout st = (case timeoutField st of None \<Rightarrow> 10000 | Some ms \<Rightarrow> ms)"

text \<open>\<^verbatim>\<open>getMappedCard(mapping)\<close>: the first card of the mapped deck with the mapping.\<close>

definition getMappedCard :: "card list \<Rightarrow> cardval \<Rightarrow> card option" where
  "getMappedCard md m = find (\<lambda>c. mapping c = m) md"

section \<open>analyzeCards\<close>

text \<open>\<^verbatim>\<open>keychain[keychain.length-1]\<close>: undefined for the empty keychain.\<close>

definition lastKeypair :: "'k list \<Rightarrow> 'k option" where
  "lastKeypair kc = (if kc = [] then None else Some (last kc))"

text \<open>
  One batch of cryptosystem calls: for every value, in order, the operation under the
  last keypair of the keychain, all awaited together. The keychain is read once per value,
  so a keychain that is undefined raises a \<^verbatim>\<open>TypeError\<close> unless there is no value.
\<close>

definition invokeAll ::
  "('k option \<Rightarrow> cardval \<Rightarrow> cardval) \<Rightarrow> 'k list option \<Rightarrow> cardval list
     \<Rightarrow> thrown + cardval list" where
  "invokeAll f kc vals =
     (if vals = [] then Inr []
      else case kc of
             None \<Rightarrow> Inl TypeErrorThrown
           | Some k \<Rightarrow> Inr (map (f (lastKeypair k)) vals))"

text \<open>
  The three statements before each \<^verbatim>\<open>throw\<close> of \<^verbatim>\<open>analyzeCards\<close>: the error is
  stored in \<^verbatim>\<open>this._analysis\<close>, which is marked complete. They read the property, not the
  getter, so an analysis object that was never created raises a \<^verbatim>\<open>TypeError\<close> instead.
\<close>

definition failAnalysis :: "jsError \<Rightarrow> 'k analyzer \<Rightarrow> thrown \<times> 'k analyzer" where
  "failAnalysis e st =
     (case analysisField st of
        None \<Rightarrow> (TypeErrorThrown, st)
      | Some a \<Rightarrow>
          (ErrorThrown e,
           st\<lparr>analysisField := Some (a\<lparr>error := ErrorSet e, complete := Some True\<rparr>)\<rparr>))"

text \<open>
  The errors whose message names the account addresses of two players: the players are
  looked up first (through the getter \<^verbatim>\<open>players\<close>), and a player that is not found
  raises a \<^verbatim>\<open>TypeError\<close>.
\<close>

definition failWithAddresses ::
  "(string \<Rightarrow> string \<Rightarrow> message) \<Rightarrow> pid \<Rightarrow> pid \<Rightarrow> 'k analyzer \<Rightarrow> thrown \<times> 'k analyzer" where
  "failWithAddresses msg p1 p2 st =
     (let (ps, st1) = getPlayers st
      in case getPlayer ps p1 of
           None \<Rightarrow> (TypeErrorThrown, st1)
         | Some pl1 \<Rightarrow>
             (case getPlayer ps p2 of
                None \<Rightarrow> (TypeErrorThrown, st1)
              | Some pl2 \<Rightarrow>
                  failAnalysis \<lparr>message = msg (accountAddress pl1) (accountAddress pl2),
                                code = Some 2\<rparr> st1))"

subsection \<open>Step 1: the deck\<close>

text \<open>
  The loop \<^verbatim>\<open>for (count = 1; count < this.deck.length; count++)\<close> over the snapshots
  after the first: the previous deck is encrypted under the last keypair of the keychain
  of the snapshot's sender and compared with the snapshot. The value is what is thrown, or
  the deck that is left as \<^verbatim>\<open>previousDeck\<close>.
\<close>

fun deckLoop ::
  "'k crypto \<Rightarrow> (pid \<rightharpoonup> 'k list) \<Rightarrow> nat \<Rightarrow> cardval list \<Rightarrow> snapshot list
     \<Rightarrow> thrown + cardval list" where
  "deckLoop c kcs cnt previousDeck [] = Inr previousDeck"
| "deckLoop c kcs cnt previousDeck (s # rest) =
     (let currentDeck = cards s
      in case invokeAll (encrypt c) (kcs (fromPID s)) previousDeck of
           Inl t \<Rightarrow> Inl t
         | Inr compareDeck \<Rightarrow>
             if compareDecks currentDeck compareDeck = False
             then Inl (ErrorThrown \<lparr>message = DeckEncryptionFailed cnt (fromPID s),
                                     code = Some 1\<rparr>)
             else deckLoop c kcs (cnt + 1) currentDeck rest)"

subsection \<open>Step 2: the deals\<close>

text \<open>
  What the deal loops carry: \<^verbatim>\<open>cardsObj.private\<close>, \<^verbatim>\<open>cardsObj.public\<close> and the
  encrypted deck, from which \<^verbatim>\<open>removeFromDeck\<close> removes the selected cards in place.
\<close>

record dealState =
  dsPrivate :: "(pid \<times> card list) list"
  dsPublic :: "card list"
  dsDeck :: "cardval list"

text \<open>\<^verbatim>\<open>if (obj[k] == undefined) obj[k] = new Array()\<close> and \<^verbatim>\<open>obj[k].push(v)\<close>.\<close>

definition objInit :: "'a \<Rightarrow> ('a \<times> 'b list) list \<Rightarrow> ('a \<times> 'b list) list" where
  "objInit k obj = (if k \<in> fst ` set obj then obj else obj @ [(k, [])])"

definition objPush :: "'a \<Rightarrow> 'b \<Rightarrow> ('a \<times> 'b list) list \<Rightarrow> ('a \<times> 'b list) list" where
  "objPush k v obj = map (\<lambda>(k', vs). if k' = k then (k', vs @ [v]) else (k', vs)) obj"

text \<open>
  The loop over the results of a final decryption: each result is looked up in the mapped
  deck; the first that does not map is returned on the left, otherwise the cards.
\<close>

fun mapResults :: "card list \<Rightarrow> cardval list \<Rightarrow> cardval + card list" where
  "mapResults md [] = Inr []"
| "mapResults md (r # rs) =
     (case getMappedCard md r of
        None \<Rightarrow> Inl r
      | Some cd \<Rightarrow> (case mapResults md rs of Inl bad \<Rightarrow> Inl bad | Inr cs \<Rightarrow> Inr (cd # cs)))"

definition pushDealt :: "bool \<Rightarrow> pid \<Rightarrow> card list \<Rightarrow> dealState \<Rightarrow> dealState" where
  "pushDealt isPrivate sourcePID cs ds =
     (if isPrivate
      then ds\<lparr>dsPrivate := foldl (\<lambda>obj cd. objPush sourcePID cd obj) (dsPrivate ds) cs\<rparr>
      else ds\<lparr>dsPublic := dsPublic ds @ cs\<rparr>)"

text \<open>
  One pass of the loop over a player's deal array, at index \<open>cnt\<close> of \<open>n\<close> entries, for the
  selecting player \<open>sourcePID\<close>. \<open>previousDeal\<close> is the entry before the current one, absent
  at index 0, where \<^verbatim>\<open>previousType\<close> keeps its initial value \<^verbatim>\<open>"select"\<close>. The branches
  are those of the source, in its order. The value is what is thrown, with the analyzer as
  the failure leaves it, or the deal state after the pass.
\<close>

definition dealStep ::
  "'k crypto \<Rightarrow> 'k analyzer \<Rightarrow> pid \<Rightarrow> nat \<Rightarrow> nat \<Rightarrow> deal option \<Rightarrow> deal \<Rightarrow> dealState
     \<Rightarrow> (thrown \<times> 'k analyzer) + dealState" where
  "dealStep c st sourcePID cnt n previousDeal currentDeal ds0 =
     (let previousType = (case previousDeal of None \<Rightarrow> Select | Some p \<Rightarrow> dealType p);
          fromP = dealFromPID currentDeal;
          type = dealType currentDeal;
          privateDeal = dealPrivate currentDeal;
          cs = dealCards currentDeal;
          ds = ds0\<lparr>dsPrivate := objInit sourcePID (dsPrivate ds0)\<rparr>
      in if previousType = Select \<and> type = Select then
           (if cnt > 0
            then Inl (failAnalysis \<lparr>message = MultipleSequentialSelect, code = Some 2\<rparr> st)
            else case removeFromDeck cs (dsDeck ds) of
                   (ok, deck') \<Rightarrow>
                     if ok = False
                     then Inl (failAnalysis
                                 \<lparr>message = DuplicatesInSelect cnt fromP sourcePID,
                                  code = Some 2\<rparr> st)
                     else Inr (ds\<lparr>dsDeck := deck'\<rparr>))
         else if previousType = Select \<and> type = Decrypt \<and> cnt < n - 1 then Inr ds
         else if previousType = Decrypt \<and> type = Select then
           (case previousDeal of
              None \<Rightarrow> Inl (TypeErrorThrown, st)
            | Some p \<Rightarrow>
                (case invokeAll (decrypt c) (keychains st sourcePID) (dealCards p) of
                   Inl t \<Rightarrow> Inl (t, st)
                 | Inr results \<Rightarrow>
                     (case mapResults (mappedDeck st) results of
                        Inl bad \<Rightarrow>
                          Inl (failWithAddresses
                                 (\<lambda>a1 a2. FinalDecryptionDoesNotMap cnt [a1, a2] bad)
                                 fromP sourcePID st)
                      | Inr dealt \<Rightarrow>
                          (let ds1 = pushDealt (dealPrivate p) sourcePID dealt ds
                           in case removeFromDeck cs (dsDeck ds1) of
                                (ok, deck') \<Rightarrow>
                                  if ok = False
                                  then Inl (failWithAddresses (DuplicatesInSelect cnt)
                                              fromP sourcePID st)
                                  else Inr (ds1\<lparr>dsDeck := deck'\<rparr>)))))
         else if cnt = n - 1 then
           (case invokeAll (decrypt c) (keychains st sourcePID) cs of
              Inl t \<Rightarrow> Inl (t, st)
            | Inr results \<Rightarrow>
                (case mapResults (mappedDeck st) results of
                   Inl bad \<Rightarrow>
                     Inl (failAnalysis
                            \<lparr>message = FinalDecryptionDoesNotMap cnt [fromP] bad,
                             code = Some 2\<rparr> st)
                 | Inr dealt \<Rightarrow> Inr (pushDealt privateDeal sourcePID dealt ds)))
         else
           (case previousDeal of
              None \<Rightarrow> Inl (TypeErrorThrown, st)
            | Some p \<Rightarrow>
                (case invokeAll (decrypt c) (keychains st fromP) (dealCards p) of
                   Inl t \<Rightarrow> Inl (t, st)
                 | Inr compareDeck \<Rightarrow>
                     if compareDecks compareDeck cs = False
                     then Inl (failWithAddresses (PreviousRoundMismatch cnt)
                                 fromP sourcePID st)
                     else Inr ds)))"

text \<open>
  In the two branches that read the previous entry, \<open>previousDeal\<close> is present whenever the
  branch is reached: the previous type is \<^verbatim>\<open>"decrypt"\<close> only from index 1 on, and at index 0
  the last branch is reached only with \<open>cnt = n - 1\<close>. The \<open>None\<close> cases are never taken.
\<close>

fun dealLoop ::
  "'k crypto \<Rightarrow> 'k analyzer \<Rightarrow> pid \<Rightarrow> nat \<Rightarrow> nat \<Rightarrow> deal option \<Rightarrow> deal list \<Rightarrow> dealState
     \<Rightarrow> (thrown \<times> 'k analyzer) + dealState" where
  "dealLoop c st sourcePID n cnt previousDeal [] ds = Inr ds"
| "dealLoop c st sourcePID n cnt previousDeal (currentDeal # rest) ds =
     (case dealStep c st sourcePID cnt n previousDeal currentDeal ds of
        Inl failure \<Rightarrow> Inl failure
      | Inr ds' \<Rightarrow> dealLoop c st sourcePID n (cnt + 1) (Some currentDeal) rest ds')"

text \<open>
  The loop \<^verbatim>\<open>for (var privateID in this.deals)\<close>, over the entries in the order of
  \<open>forIn\<close>.
\<close>

fun dealsLoop ::
  "'k crypto \<Rightarrow> 'k analyzer \<Rightarrow> (pid \<times> deal list) list \<Rightarrow> dealState
     \<Rightarrow> (thrown \<times> 'k analyzer) + dealState" where
  "dealsLoop c st [] ds = Inr ds"
| "dealsLoop c st ((privID, dealArray) # rest) ds =
     (case dealLoop c st privID (length dealArray) 0 None dealArray ds of
        Inl failure \<Rightarrow> Inl failure
      | Inr ds' \<Rightarrow> dealsLoop c st rest ds')"

subsection \<open>The function\<close>

text \<open>
  \<^verbatim>\<open>analyzeCards()\<close>: the promise resolves with \<open>None\<close> (null) when no deck was captured
  and with the cards object otherwise, or is rejected with what was thrown. The second
  component is the analyzer after the call.
\<close>

definition analyzeCards ::
  "'k crypto \<Rightarrow> 'k analyzer \<Rightarrow> (thrown + 'k analysis option) \<times> 'k analyzer" where
  "analyzeCards c st =
     (case deck st of
        [] \<Rightarrow> (Inr None, st)
      | first # rest \<Rightarrow>
          (let faceUpMappings = cards first
           in case deckLoop c (keychains st) 1 faceUpMappings rest of
                Inl TypeErrorThrown \<Rightarrow> (Inl TypeErrorThrown, st)
              | Inl (ErrorThrown e) \<Rightarrow>
                  (case failAnalysis e st of (t, st') \<Rightarrow> (Inl t, st'))
              | Inr encryptedDeck \<Rightarrow>
                  (case dealsLoop c st (forIn (deals st))
                          \<lparr>dsPrivate = [], dsPublic = [], dsDeck = encryptedDeck\<rparr> of
                     Inl (t, st') \<Rightarrow> (Inl t, st')
                   | Inr ds \<Rightarrow>
                       (Inr (Some \<lparr>privateOf = dsPrivate ds, publicOf = dsPublic ds,
                                   complete = None, error = ErrorUndefined, hands = None,
                                   winningPlayers = None, winningHands = None\<rparr>),
                        st))))"

section \<open>Scoring the hands of a game\<close>

subsection \<open>createCardPermutations\<close>

text \<open>
  The 5-card hands of at most 7 cards, as the source lists them: the array itself for up
  to 5 cards, 6 hands for 6 cards, 21 hands (over the indices 0 to 6) otherwise.
\<close>

definition createCardPermutations :: "'a list \<Rightarrow> 'a list list" where
  "createCardPermutations cardsArr =
     (let c = (\<lambda>i. cardsArr ! i)
      in if length cardsArr \<le> 5 then [cardsArr]
         else if length cardsArr = 6 then
           [[c 1, c 2, c 3, c 4, c 5],
            [c 0, c 2, c 3, c 4, c 5],
            [c 1, c 0, c 3, c 4, c 5],
            [c 1, c 2, c 0, c 4, c 5],
            [c 1, c 2, c 3, c 0, c 5],
            [c 1, c 2, c 3, c 4, c 0]]
         else
           [[c 2, c 3, c 4, c 5, c 6],
            [c 0, c 3, c 4, c 5, c 6],
            [c 2, c 0, c 4, c 5, c 6],
            [c 2, c 3, c 0, c 5, c 6],
            [c 2, c 3, c 4, c 0, c 6],
            [c 2, c 3, c 4, c 5, c 0],
            [c 1, c 3, c 4, c 5, c 6],
            [c 2, c 1, c 4, c 5, c 6],
            [c 2, c 3, c 1, c 5, c 6],
            [c 2, c 3, c 4, c 1, c 6],
            [c 2, c 3, c 4, c 5, c 1],
            [c 0, c 1, c 4, c 5, c 6],
            [c 0, c 3, c 1, c 5, c 6],
            [c 0, c 3, c 4, c 1, c 6],
            [c 0, c 3, c 4, c 5, c 1],
            [c 2, c 0, c 1, c 5, c 6],
            [c 2, c 0, c 4, c 1, c 6],
            [c 2, c 0, c 4, c 5, c 1],
            [c 2, c 3, c 0, c 1, c 6],
            [c 2, c 3, c 0, c 5, c 1],
            [c 2, c 3, c 4, c 0, c 1]])"

subsection \<open>scoreHands\<close>

text \<open>
  An entry of the parallel arrays \<^verbatim>\<open>winningPlayers\<close> and \<^verbatim>\<open>winningHands\<close>: the player,
  the hand object, and where that same object sits in \<^verbatim>\<open>cardsObj.hands\<close> (private ID and
  index), since the tie-break overwrites its score in place.
\<close>

record 'k winner =
  winPlayer :: "'k player"
  winRef :: "pid \<times> nat"
  winHand :: handObj

record 'k scoring =
  scHands :: "(pid \<times> handObj list) list"
  highestScore :: int
  winners :: "'k winner list"

text \<open>\<^verbatim>\<open>obj[k] = v\<close> on an object kept in the order of creation of its keys.\<close>

definition objSet :: "'a \<Rightarrow> 'b \<Rightarrow> ('a \<times> 'b) list \<Rightarrow> ('a \<times> 'b) list" where
  "objSet k v obj =
     (if k \<in> fst ` set obj
      then map (\<lambda>(k', v'). if k' = k then (k', v) else (k', v')) obj
      else obj @ [(k, v)])"

text \<open>
  The loop over the hands of one player: each is scored from a fresh object and pushed on
  the player's hands; a score equal to the highest so far joins the winners, a greater one
  replaces them.
\<close>

fun permLoop ::
  "'k player \<Rightarrow> pid \<Rightarrow> nat \<Rightarrow> card list list \<Rightarrow> 'k scoring \<Rightarrow> 'k scoring" where
  "permLoop pl privID cnt [] sc = sc"
| "permLoop pl privID cnt (perm # perms) sc =
     (let h = scoreHand \<lparr>hand = perm, score = -1, name = None\<rparr>;
          w = \<lparr>winPlayer = pl, winRef = (privID, cnt), winHand = h\<rparr>;
          sc1 = sc\<lparr>scHands := objPush privID h (scHands sc)\<rparr>
      in permLoop pl privID (cnt + 1) perms
           (if score h = highestScore sc1 then sc1\<lparr>winners := winners sc1 @ [w]\<rparr>
            else if score h > highestScore sc1
            then sc1\<lparr>winners := [w], highestScore := score h\<rparr>
            else sc1))"

text \<open>
  The loop \<^verbatim>\<open>for (var privateID in playersObj)\<close>, over the entries in the order of
  \<open>forIn\<close>: players that are not found and players that have folded are skipped.
\<close>

fun playersLoop ::
  "'k player list \<Rightarrow> card list \<Rightarrow> (pid \<times> card list) list \<Rightarrow> 'k scoring \<Rightarrow> 'k scoring" where
  "playersLoop ps pub [] sc = sc"
| "playersLoop ps pub ((privID, privCards) # rest) sc =
     (case getPlayer ps privID of
        None \<Rightarrow> playersLoop ps pub rest sc
      | Some pl \<Rightarrow>
          if hasFolded pl = False
          then (let fullCards = privCards @ pub;
                    sc1 = sc\<lparr>scHands := objSet privID [] (scHands sc)\<rparr>;
                    perms = createCardPermutations fullCards
                in playersLoop ps pub rest (permLoop pl privID 0 perms sc1))
          else playersLoop ps pub rest sc)"

text \<open>
  The score by the two private cards of a player: ten times the greater high value plus
  the other. A player without two private cards in the analysis raises a \<^verbatim>\<open>TypeError\<close>
  (\<open>None\<close>).
\<close>

definition privateScore :: "(pid \<times> card list) list \<Rightarrow> pid \<Rightarrow> int option" where
  "privateScore priv playerPID =
     (case map_of priv playerPID of
        None \<Rightarrow> None
      | Some [] \<Rightarrow> None
      | Some [privateCard1] \<Rightarrow> None
      | Some (privateCard1 # privateCard2 # others) \<Rightarrow>
          Some (if highvalue privateCard1 > highvalue privateCard2
                then (highvalue privateCard1 * 10) + highvalue privateCard2
                else (highvalue privateCard2 * 10) + highvalue privateCard1))"

text \<open>\<^verbatim>\<open>winningHand.score = currentScore\<close>, seen through \<^verbatim>\<open>cardsObj.hands\<close>.\<close>

definition setScoreAt ::
  "pid \<times> nat \<Rightarrow> int \<Rightarrow> (pid \<times> handObj list) list \<Rightarrow> (pid \<times> handObj list) list" where
  "setScoreAt r s hs =
     map (\<lambda>(k, harr). if k = fst r \<and> snd r < length harr
                        then (k, harr[snd r := (harr ! snd r)\<lparr>score := s\<rparr>])
                        else (k, harr)) hs"

text \<open>
  The second loop, run when more than one entry holds the highest score: every entry's
  score becomes the score of its player's private cards, and the entries with the greatest
  such score are kept. The highest score starts again from 0. On the left is the state
  reached when a \<^verbatim>\<open>TypeError\<close> stops the loop.
\<close>

fun tieLoop ::
  "(pid \<times> card list) list \<Rightarrow> 'k winner list \<Rightarrow> 'k scoring \<Rightarrow> 'k scoring + 'k scoring" where
  "tieLoop priv [] sc = Inr sc"
| "tieLoop priv (w # ws) sc =
     (case privateScore priv (privateID (winPlayer w)) of
        None \<Rightarrow> Inl sc
      | Some currentScore \<Rightarrow>
          (let w' = w\<lparr>winHand := (winHand w)\<lparr>score := currentScore\<rparr>\<rparr>;
               sc1 = sc\<lparr>scHands := setScoreAt (winRef w) currentScore (scHands sc)\<rparr>
           in tieLoop priv ws
                (if currentScore > highestScore sc1
                 then sc1\<lparr>highestScore := currentScore, winners := [w']\<rparr>
                 else if currentScore = highestScore sc1
                 then sc1\<lparr>winners := winners sc1 @ [w']\<rparr>
                 else sc1)))"

text \<open>
  The last loop, which eliminates duplicates: an entry is kept unless its player is already
  among the entries kept. The source compares the player objects; the objects in the list
  all come from \<^verbatim>\<open>getPlayer\<close>, which returns one object per private ID.
\<close>

fun dedupLoop :: "'k winner list \<Rightarrow> 'k winner list \<Rightarrow> 'k winner list" where
  "dedupLoop [] new = new"
| "dedupLoop (w # ws) new =
     dedupLoop ws
       (case find (\<lambda>n. winPlayer n = winPlayer w) new of
          None \<Rightarrow> new @ [w]
        | Some existing \<Rightarrow> new)"

text \<open>
  \<^verbatim>\<open>scoreHands(cardsObj)\<close>. The source updates \<^verbatim>\<open>cardsObj\<close> in place and returns it;
  the model returns the updated object, or, when a \<^verbatim>\<open>TypeError\<close> rejects the promise,
  that error with the object as far as it was updated. The private cards of the tie-break
  are read from \<^verbatim>\<open>this.analysis\<close>, and the players through the getter \<^verbatim>\<open>players\<close>.
\<close>

definition finishScoring :: "'k analysis \<Rightarrow> 'k scoring \<Rightarrow> 'k analysis" where
  "finishScoring cardsObj sc =
     (let new = dedupLoop (winners sc) []
      in cardsObj\<lparr>hands := Some (scHands sc),
                  winningPlayers := Some (map winPlayer new),
                  winningHands := Some (map winHand new)\<rparr>)"

definition scoreHands ::
  "'k analyzer \<Rightarrow> 'k analysis \<Rightarrow> ((thrown \<times> 'k analysis) + 'k analysis) \<times> 'k analyzer" where
  "scoreHands st cardsObj =
     (let playersObj = privateOf cardsObj;
          ps = fst (getPlayers st);
          st1 = (if playersObj = [] then st else snd (getPlayers st));
          sc = playersLoop ps (publicOf cardsObj) (forIn playersObj)
                 \<lparr>scHands = [], highestScore = -1, winners = []\<rparr>
      in if length (winners sc) > 1
         then (let (a, st2) = getAnalysis st1
               in case tieLoop (privateOf a) (winners sc)
                         (sc\<lparr>highestScore := 0, winners := []\<rparr>) of
                    Inl partial \<Rightarrow>
                      (Inl (TypeErrorThrown, cardsObj\<lparr>hands := Some (scHands partial)\<rparr>), st2)
                  | Inr sc2 \<Rightarrow> (Inr (finishScoring cardsObj sc2), st2))
         else (Inr (finishScoring cardsObj sc), st1))"

section \<open>The keychain commitment\<close>

text \<open>
  The getter \<^verbatim>\<open>allKeychainsCommitted\<close>: for each player in turn, a keychain that is not
  stored yet is copied from the player; the first empty keychain ends the loop with false.
  The value is the boolean and the keychains after the call.
\<close>

fun committedLoop ::
  "'k player list \<Rightarrow> (pid \<rightharpoonup> 'k list) \<Rightarrow> bool \<times> (pid \<rightharpoonup> 'k list)" where
  "committedLoop [] kcs = (True, kcs)"
| "committedLoop (pl # rest) kcs =
     (let kcs1 = (case kcs (privateID pl) of
                    None \<Rightarrow> kcs(privateID pl \<mapsto> keychain pl)
                  | Some k \<Rightarrow> kcs)
      in if kcs1 (privateID pl) = Some [] then (False, kcs1) else committedLoop rest kcs1)"

definition allKeychainsCommitted :: "'k analyzer \<Rightarrow> bool \<times> 'k analyzer" where
  "allKeychainsCommitted st =
     (let (ps, st1) = getPlayers st;
          (res, kcs) = committedLoop ps (keychains st1)
      in (res, st1\<lparr>keychains := kcs\<rparr>))"

text \<open>
  \<^verbatim>\<open>onGameAnalyze\<close>: the players are refreshed, the own keychain is stored, the game
  listeners are removed and the timer is armed with the delay that the getter
  \<^verbatim>\<open>keychainCommitTimeout\<close> returns; the handle of the timer (\<open>nextHandle\<close>, as the
  runtime numbers its timers) replaces the delay in \<^verbatim>\<open>_keychainCommitTimeout\<close>.
\<close>

record 'k runtime =
  analyzerOf :: "'k analyzer"
  timer :: "(nat \<times> nat) option"
  nextHandle :: nat

definition onGameAnalyze :: "'k runtime \<Rightarrow> (thrown + bool) \<times> 'k runtime" where
  "onGameAnalyze rt =
     (let st1 = refreshPlayers (analyzerOf rt)
      in case getPlayer (fst (getPlayers st1)) (ownPID st1) of
           None \<Rightarrow> (Inl TypeErrorThrown, rt\<lparr>analyzerOf := st1\<rparr>)
         | Some own \<Rightarrow>
             (let st2 = st1\<lparr>keychains := (keychains st1)(ownPID st1 \<mapsto> keychain own),
                            gameListeners := False\<rparr>;
                  delay = keychainCommitTimeout st2
              in (Inr True,
                  rt\<lparr>analyzerOf := st2\<lparr>timeoutField := Some (nextHandle rt)\<rparr>,
                     timer := Some (nextHandle rt, delay),
                     nextHandle := nextHandle rt + 1\<rparr>)))"

text \<open>
  \<^verbatim>\<open>onKCSTimeout(context, game)\<close>: the analysis (created by the getter if need be) is
  marked complete and an \<^verbatim>\<open>Error\<close> naming the table is thrown.
\<close>

definition onKCSTimeout :: "'k analyzer \<Rightarrow> thrown \<times> 'k analyzer" where
  "onKCSTimeout context =
     (let (a, st1) = getAnalysis context
      in (ErrorThrown \<lparr>message = KeychainsNotCommitted (tableID context), code = None\<rparr>,
          st1\<lparr>analysisField := Some (a\<lparr>complete := Some True\<rparr>)\<rparr>))"

text \<open>
  The armed timer elapses: the runtime calls \<^verbatim>\<open>onKCSTimeout\<close>. Without an armed timer
  (none was set, or it was cleared) nothing is called.
\<close>

definition timerElapses :: "'k runtime \<Rightarrow> (thrown \<times> 'k runtime) option" where
  "timerElapses rt =
     (case timer rt of
        None \<Rightarrow> None
      | Some armed \<Rightarrow>
          (case onKCSTimeout (analyzerOf rt) of
             (t, st) \<Rightarrow> Some (t, rt\<lparr>analyzerOf := st, timer := None\<rparr>)))"

text \<open>\<^verbatim>\<open>clearTimeout(this._keychainCommitTimeout)\<close>.\<close>

definition clearTimeout :: "nat option \<Rightarrow> 'k runtime \<Rightarrow> 'k runtime" where
  "clearTimeout h rt =
     (case timer rt of
        None \<Rightarrow> rt
      | Some (handle, delay) \<Rightarrow> if h = Some handle then rt\<lparr>timer := None\<rparr> else rt)"

text \<open>Dispatching an event whose \<^verbatim>\<open>analysis\<close> property is read through the getter.\<close>

definition dispatchEvent :: "eventName \<Rightarrow> 'k analyzer \<Rightarrow> 'k analyzer" where
  "dispatchEvent ev st =
     (let st1 = snd (getAnalysis st) in st1\<lparr>dispatched := dispatched st1 @ [ev]\<rparr>)"

text \<open>
  \<^verbatim>\<open>onPlayerKeychain(event)\<close> for the event's player and keychain. The submitted
  keychain is stored under the player's private ID; when all keychains are committed the
  listener is removed, the timer cleared, and the analysis and the scoring run. A rejected
  \<^verbatim>\<open>analyzeCards\<close> is caught and the handler returns false; a rejected
  \<^verbatim>\<open>scoreHands\<close> rejects the handler.
\<close>

definition onPlayerKeychain ::
  "'k crypto \<Rightarrow> pid \<Rightarrow> 'k list \<Rightarrow> 'k runtime \<Rightarrow> (thrown + bool) \<times> 'k runtime" where
  "onPlayerKeychain c playerPID kc rt =
     (let st0 = (analyzerOf rt)\<lparr>active := True\<rparr>;
          st1 = st0\<lparr>keychains := (keychains st0)(playerPID \<mapsto> kc)\<rparr>;
          (allCommitted, st2) = allKeychainsCommitted st1
      in if allCommitted then
           (let st3 = st2\<lparr>keychainListener := False\<rparr>;
                rt1 = clearTimeout (timeoutField st3) rt;
                st4 = dispatchEvent Analyzing st3
            in case analyzeCards c st4 of
                 (Inl err, st5) \<Rightarrow> (Inr False, rt1\<lparr>analyzerOf := st5\<rparr>)
               | (Inr res, st5) \<Rightarrow>
                   (let st6 = dispatchEvent Analyzed (st5\<lparr>analysisField := res\<rparr>)
                    in case analysisField st6 of
                         None \<Rightarrow> (Inl TypeErrorThrown, rt1\<lparr>analyzerOf := st6\<rparr>)
                       | Some cardsObj \<Rightarrow>
                           (case scoreHands st6 cardsObj of
                              (Inl (t, partial), st7) \<Rightarrow>
                                (Inl t, rt1\<lparr>analyzerOf := st7\<lparr>analysisField := Some partial\<rparr>\<rparr>)
                            | (Inr scored, st7) \<Rightarrow>
                                (let st8 = st7\<lparr>analysisField :=
                                             Some (scored\<lparr>complete := Some True,
                                                          error := ErrorNull\<rparr>)\<rparr>;
                                     st9 = dispatchEvent Scored st8
                                 in (Inr True, rt1\<lparr>analyzerOf := st9\<lparr>active := False\<rparr>\<rparr>)))))
         else (Inr True, rt\<lparr>analyzerOf := st2\<rparr>))"

text \<open>
  The game dispatches \<^verbatim>\<open>gameplayerkeychain\<close>: the handler runs while its listener is
  registered.
\<close>

definition playerKeychainEvent ::
  "'k crypto \<Rightarrow> pid \<Rightarrow> 'k list \<Rightarrow> 'k runtime \<Rightarrow> ((thrown + bool) \<times> 'k runtime) option" where
  "playerKeychainEvent c playerPID kc rt =
     (if keychainListener (analyzerOf rt) then Some (onPlayerKeychain c playerPID kc rt)
      else None)"

section \<open>Notions used to state the properties\<close>

text \<open>
  Stage \<open>i\<close> of the deck, for \<open>i\<close> from 1: the cards of snapshot \<open>i - 1\<close>, each encrypted
  under the last keypair of the keychain stored for the sender of snapshot \<open>i\<close>, are the
  cards of snapshot \<open>i\<close> as a multiset. A stage without a stored keychain does not match.
\<close>

definition stageMatches ::
  "'k crypto \<Rightarrow> (pid \<rightharpoonup> 'k list) \<Rightarrow> snapshot list \<Rightarrow> nat \<Rightarrow> bool" where
  "stageMatches c kcs d i =
     (case kcs (fromPID (d ! i)) of
        None \<Rightarrow> False
      | Some kc \<Rightarrow>
          mset (map (encrypt c (lastKeypair kc)) (cards (d ! (i - 1)))) = mset (cards (d ! i)))"

text \<open>The error of a failed stage: code 1, naming the stage and the sender.\<close>

definition stageError :: "snapshot list \<Rightarrow> nat \<Rightarrow> jsError" where
  "stageError d i = \<lparr>message = DeckEncryptionFailed i (fromPID (d ! i)), code = Some 1\<rparr>"

text \<open>
  The keys of an object in the order of their creation, the statistics of a value group
  that the scorer reads (its length and the sum of its high values), and the window of
  five consecutive ranks from \<open>k\<close>.
\<close>

definition firstKeys :: "'a list \<Rightarrow> 'a list" where
  "firstKeys xs = rev (remdups (rev xs))"

definition groupStats :: "int \<times> card list \<Rightarrow> nat \<times> int" where
  "groupStats g = (length (snd g), getCardSum (snd g))"

definition window :: "int \<Rightarrow> int list" where
  "window k = [k, k + 1, k + 2, k + 3, k + 4]"

text \<open>
  A card of the standard deck as the card registry describes it: the value (rank) is
  between 1 and 13 and the high value is the value, except for the ace, whose value is 1 and
  whose high value is 14. \<open>mkCard\<close> builds such a card from a suit and a value.
\<close>

definition highOf :: "int \<Rightarrow> int" where
  "highOf v = (if v = 1 then 14 else v)"

definition validCard :: "card \<Rightarrow> bool" where
  "validCard c = (1 \<le> cardValue c \<and> cardValue c \<le> 13 \<and> highvalue c = highOf (cardValue c))"

definition validHand :: "card list \<Rightarrow> bool" where
  "validHand h = list_all validCard h"

definition mkCard :: "string \<Rightarrow> int \<Rightarrow> card" where
  "mkCard s v = \<lparr>mapping = [], suit = s, cardValue = v, highvalue = highOf v\<rparr>"

text \<open>All cards of a hand are of one suit.\<close>

definition sameSuit :: "card list \<Rightarrow> bool" where
  "sameSuit h = (card (suit ` set h) = 1)"

text \<open>
  The rank classes of poker, from the lowest to the highest, and the usual classification
  of five cards by their suits and the multiset of their ranks: \<open>rankCounts\<close> are the
  multiplicities of the ranks, in ascending order, and \<open>straightRanks\<close> says that the ranks
  are five consecutive ones, the ace being low in \<open>1, \<dots>, 5\<close> and high in
  \<open>10, \<dots>, 13, 1\<close>. Five cards of one rank are in no class.
\<close>

datatype handClass =
  HighCard | OnePair | TwoPair | ThreeOfAKind | Straight | Flush | FullHouse | FourOfAKind
  | StraightFlush | RoyalFlush

fun classRank :: "handClass \<Rightarrow> nat" where
  "classRank HighCard = 0"
| "classRank OnePair = 1"
| "classRank TwoPair = 2"
| "classRank ThreeOfAKind = 3"
| "classRank Straight = 4"
| "classRank Flush = 5"
| "classRank FullHouse = 6"
| "classRank FourOfAKind = 7"
| "classRank StraightFlush = 8"
| "classRank RoyalFlush = 9"

definition rankCounts :: "int list \<Rightarrow> nat list" where
  "rankCounts vs = sort (map (count_list vs) (remdups vs))"

definition straightRanks :: "int list \<Rightarrow> bool" where
  "straightRanks vs =
     (list_ex (\<lambda>k. mset vs = mset (window k)) [1, 2, 3, 4, 5, 6, 7, 8, 9]
      \<or> mset vs = mset [10, 11, 12, 13, 1])"

definition classOf :: "card list \<Rightarrow> handClass option" where
  "classOf h =
     (let vs = map cardValue h;
          counts = rankCounts vs
      in if sameSuit h \<and> mset vs = mset [10, 11, 12, 13, 1] then Some RoyalFlush
         else if sameSuit h \<and> straightRanks vs then Some StraightFlush
         else if counts = [1, 4] then Some FourOfAKind
         else if counts = [2, 3] then Some FullHouse
         else if sameSuit h then Some Flush
         else if straightRanks vs then Some Straight
         else if counts = [1, 1, 3] then Some ThreeOfAKind
         else if counts = [1, 2, 2] then Some TwoPair
         else if counts = [1, 1, 1, 2] then Some OnePair
         else if counts = [1, 1, 1, 1, 1] then Some HighCard
         else None)"

text \<open>
  A poker hand: five valid cards, no two of the same suit and rank (the cards of a hand
  are different cards of the deck).
\<close>

definition pokerHand :: "card list \<Rightarrow> bool" where
  "pokerHand h =
     (length h = 5 \<and> validHand h \<and> distinct (map (\<lambda>c. (suit c, cardValue c)) h))"

text \<open>
  Bounds of the scores of each class, used to compare the classes, and the hand that
  stands for all hands of the same ranks: its cards are of one suit if \<open>f\<close> holds, and of
  two suits otherwise.
\<close>

fun classFloor :: "handClass \<Rightarrow> int" where
  "classFloor HighCard = 0"
| "classFloor OnePair = 100"
| "classFloor TwoPair = 1000"
| "classFloor ThreeOfAKind = 9000"
| "classFloor Straight = 150000"
| "classFloor Flush = 2000000"
| "classFloor FullHouse = 12000000"
| "classFloor FourOfAKind = 80000000"
| "classFloor StraightFlush = 1500000000"
| "classFloor RoyalFlush = 60000000000"

fun classCeil :: "handClass \<Rightarrow> int" where
  "classCeil HighCard = 14"
| "classCeil OnePair = 900"
| "classCeil TwoPair = 6000"
| "classCeil ThreeOfAKind = 60000"
| "classCeil Straight = 600000"
| "classCeil Flush = 6000000"
| "classCeil FullHouse = 70000000"
| "classCeil FourOfAKind = 600000000"
| "classCeil StraightFlush = 5500000000"
| "classCeil RoyalFlush = 60000000000"

definition canon :: "bool \<Rightarrow> int \<Rightarrow> int \<Rightarrow> int \<Rightarrow> int \<Rightarrow> int \<Rightarrow> card list" where
  "canon f a b c d e =
     [mkCard (if f then ''s'' else ''t'') a, mkCard ''s'' b, mkCard ''s'' c, mkCard ''s'' d,
      mkCard ''s'' e]"

text \<open>
  The scored hands of a game: for every private ID of the analysis whose player is found and
  has not folded, in order, the hands of the player's cards with the public cards, each
  scored from a fresh object. \<open>keepBest\<close> is the bookkeeping of the highest score and of
  the entries that hold it, one entry at a time.
\<close>

definition scoredHands :: "'k player \<Rightarrow> pid \<Rightarrow> nat \<Rightarrow> card list list \<Rightarrow> 'k winner list" where
  "scoredHands pl privID cnt perms =
     map (\<lambda>(i, perm). \<lparr>winPlayer = pl, winRef = (privID, i),
                          winHand = scoreHand \<lparr>hand = perm, score = -1, name = None\<rparr>\<rparr>)
       (enumerate cnt perms)"

definition entriesOf ::
  "'k player list \<Rightarrow> card list \<Rightarrow> (pid \<times> card list) list \<Rightarrow> 'k winner list" where
  "entriesOf ps pub priv =
     concat (map (\<lambda>(privID, privCards).
                    case getPlayer ps privID of
                      None \<Rightarrow> []
                    | Some pl \<Rightarrow>
                        if hasFolded pl then []
                        else scoredHands pl privID 0 (createCardPermutations (privCards @ pub)))
               priv)"

definition keepBest :: "int \<times> 'k winner list \<Rightarrow> 'k winner \<Rightarrow> int \<times> 'k winner list" where
  "keepBest best w =
     (if score (winHand w) = fst best then (fst best, snd best @ [w])
      else if score (winHand w) > fst best then (score (winHand w), [w])
      else best)"

text \<open>
  An entry with the score of its hand replaced by the score of its player's private cards,
  as the second loop of \<^verbatim>\<open>scoreHands\<close> leaves it.
\<close>

definition privateRescore :: "(pid \<times> card list) list \<Rightarrow> 'k winner \<Rightarrow> 'k winner" where
  "privateRescore priv w =
     w\<lparr>winHand := (winHand w)\<lparr>score :=
          (case privateScore priv (privateID (winPlayer w)) of
             None \<Rightarrow> score (winHand w)
           | Some s \<Rightarrow> s)\<rparr>\<rparr>"

section \<open>A small game, for concrete instances\<close>

text \<open>
  A toy cryptosystem on strings: encrypting appends the key, decrypting removes as many
  characters from the end; without a keypair the value is returned as it is.
\<close>

definition toyCrypto :: "string crypto" where
  "toyCrypto =
     \<lparr>encrypt = (\<lambda>k v. case k of None \<Rightarrow> v | Some key \<Rightarrow> v @ key),
      decrypt = (\<lambda>k v. case k of None \<Rightarrow> v | Some key \<Rightarrow> take (length v - length key) v)\<rparr>"

definition alice :: "string player" where
  "alice = \<lparr>privateID = ''P1'', isDealer = True, hasFolded = False, keychain = [''a''],
     accountAddress = ''addr1''\<rparr>"

definition bob :: "string player" where
  "bob = \<lparr>privateID = ''P2'', isDealer = False, hasFolded = False, keychain = [''b''],
     accountAddress = ''addr2''\<rparr>"

definition carol :: "string player" where
  "carol = \<lparr>privateID = ''P3'', isDealer = False, hasFolded = False, keychain = [],
     accountAddress = ''addr3''\<rparr>"

text \<open>An analyzer that has captured nothing yet, for a game of the given players.\<close>

definition freshAnalyzer :: "string player list \<Rightarrow> string analyzer" where
  "freshAnalyzer ps =
     \<lparr>gamePlayers = ps, ownPID = ''P1'', tableID = ''T'', playersField = None,
      keychains = Map.empty, analysisField = None, timeoutField = None, deck = [],
      mappedDeck = [], deals = [], active = False, gameListeners = True,
      keychainListener = True, dispatched = []\<rparr>"

text \<open>
  A deck of two cards encrypted by the dealer and then by the second player, who replaces
  one ciphertext; the analysis object exists and both keychains are stored.
\<close>

definition tamperedAnalyzer :: "string analyzer" where
  "tamperedAnalyzer =
     (freshAnalyzer [alice, bob])
       \<lparr>keychains := [''P1'' \<mapsto> [''a''], ''P2'' \<mapsto> [''b'']],
        analysisField := Some newAnalysis,
        deck := [\<lparr>fromPID = ''P1'', cards = [''7'', ''9'']\<rparr>,
                 \<lparr>fromPID = ''P1'', cards = [''9a'', ''7a'']\<rparr>,
                 \<lparr>fromPID = ''P2'', cards = [''7ab'', ''5ab'']\<rparr>]\<rparr>"

text \<open>
  The runtime at the start of a hand between the first and the third player, who has not
  committed a keychain: no timer is armed and timers are numbered from 1.
\<close>

definition waitingRuntime :: "string runtime" where
  "waitingRuntime = \<lparr>analyzerOf = freshAnalyzer [alice, carol], timer = None, nextHandle = 1\<rparr>"

text \<open>
  Hands for concrete instances: the low-ace straight and the straight from 2 in mixed
  suits, the former also with its cards in another order and in one suit, a flush, and a
  hand object made of cards.
\<close>

definition handOf :: "card list \<Rightarrow> handObj" where
  "handOf cs = \<lparr>hand = cs, score = -1, name = None\<rparr>"

definition lowStraight :: "card list" where
  "lowStraight =
     [mkCard ''hearts'' 1, mkCard ''spades'' 2, mkCard ''spades'' 3, mkCard ''spades'' 4,
      mkCard ''spades'' 5]"

definition lowStraightMixed :: "card list" where
  "lowStraightMixed =
     [mkCard ''spades'' 4, mkCard ''spades'' 2, mkCard ''spades'' 5, mkCard ''hearts'' 1,
      mkCard ''spades'' 3]"

definition lowStraightFlush :: "card list" where
  "lowStraightFlush =
     [mkCard ''spades'' 1, mkCard ''spades'' 2, mkCard ''spades'' 3, mkCard ''spades'' 4,
      mkCard ''spades'' 5]"

definition sixStraight :: "card list" where
  "sixStraight =
     [mkCard ''hearts'' 2, mkCard ''spades'' 3, mkCard ''spades'' 4, mkCard ''spades'' 5,
      mkCard ''spades'' 6]"

definition lowFlush :: "card list" where
  "lowFlush =
     [mkCard ''hearts'' 2, mkCard ''hearts'' 3, mkCard ''hearts'' 4, mkCard ''hearts'' 5,
      mkCard ''hearts'' 7]"

text \<open>
  A showdown of three players on a board that is a royal flush in spades, which is the
  best hand of each of them: the first two hold a king and a five, the third a king and a
  card of the given rank. The analysis object is the cards object.
\<close>

definition dave :: "string player" where
  "dave = \<lparr>privateID = ''P4'', isDealer = False, hasFolded = False, keychain = [''d''],
     accountAddress = ''addr4''\<rparr>"

definition showdownCards :: "int \<Rightarrow> string analysis" where
  "showdownCards v =
     \<lparr>privateOf = [(''P1'', [mkCard ''hearts'' 13, mkCard ''hearts'' 5]),
                    (''P2'', [mkCard ''diamonds'' 13, mkCard ''diamonds'' 5]),
                    (''P4'', [mkCard ''clubs'' 13, mkCard ''clubs'' v])],
      publicOf = [mkCard ''spades'' 1, mkCard ''spades'' 13, mkCard ''spades'' 12,
                  mkCard ''spades'' 11, mkCard ''spades'' 10],
      complete = None, error = ErrorUndefined, hands = None,
      winningPlayers = None, winningHands = None\<rparr>"

definition showdownAnalyzer :: "int \<Rightarrow> string analyzer" where
  "showdownAnalyzer v =
     (freshAnalyzer [alice, bob, dave])
       \<lparr>playersField := Some [alice, bob, dave], analysisField := Some (showdownCards v)\<rparr>"

text \<open>The entry of a player for the hand made of the five public cards.\<close>

definition boardEntry :: "string player \<Rightarrow> int \<Rightarrow> string winner" where
  "boardEntry pl v =
     \<lparr>winPlayer = pl, winRef = (privateID pl, 0),
      winHand = scoreHand \<lparr>hand = publicOf (showdownCards v), score = -1, name = None\<rparr>\<rparr>"

section \<open>Properties of the deck utilities\<close>

lemma mset_spliceFirst: "mset (spliceFirst x ys) = mset ys - {#x#}"
  by (induction ys) auto

lemma mset_compareLoop: "mset (compareLoop xs ys) = mset ys - mset xs"
  by (induction xs arbitrary: ys) (auto simp: mset_spliceFirst)

lemma compareDecks_mset: "compareDecks xs ys = (mset xs = mset ys)"
proof (cases "length xs = length ys")
  case False
  then have "mset xs \<noteq> mset ys"
    using mset_eq_length by blast
  with False show ?thesis
    by (simp add: compareDecks_def)
next
  case True
  have "compareDecks xs ys = (mset (compareLoop xs ys) = {#})"
    using True by (simp add: compareDecks_def)
  also have "\<dots> = (mset ys \<subseteq># mset xs)"
    by (simp add: mset_compareLoop Diff_eq_empty_iff_mset)
  also have "\<dots> = (mset xs = mset ys)"
  proof
    assume sub: "mset ys \<subseteq># mset xs"
    have "size (mset ys) = size (mset xs)"
      using True by simp
    with sub show "mset xs = mset ys"
      by (metis mset_subset_size subset_mset.less_le less_irrefl)
  qed simp
  finally show ?thesis .
qed

text \<open>
  Claim C4. For all arrays, \<^verbatim>\<open>compareDecks\<close> returns true exactly when the two arrays
  are equal as multisets; it is symmetric and reflexive, duplicates included.
\<close>

theorem compareDecks_multiset_equality:
  "compareDecks A B = (mset A = mset B)
   \<and> compareDecks A B = compareDecks B A
   \<and> compareDecks A A = True"
  by (auto simp: compareDecks_mset)

subsection \<open>removeFromDeck\<close>

lemma spliceAll_filter:
  "spliceAll item dk = (filter (\<lambda>d. d = item) dk, filter (\<lambda>d. d \<noteq> item) dk)"
  by (induction dk) auto

lemma removeLoop_snd:
  "snd (removeLoop items dk acc) = filter (\<lambda>d. d \<notin> set items) dk"
proof (induction items arbitrary: dk acc)
  case Nil
  show ?case by simp
next
  case (Cons item items)
  have "filter (\<lambda>d. d \<notin> set items) (filter (\<lambda>d. d \<noteq> item) dk)
        = filter (\<lambda>d. d \<notin> set (item # items)) dk"
    by (induction dk) auto
  then show ?case
    by (simp add: spliceAll_filter Cons.IH)
qed

lemma removeLoop_fst_length:
  "length (fst (removeLoop items dk acc))
     = length acc + length (filter (\<lambda>d. d \<in> set items) dk)"
proof (induction items arbitrary: dk acc)
  case Nil
  show ?case by simp
next
  case (Cons item items)
  have "length (filter (\<lambda>d. d = item) dk)
          + length (filter (\<lambda>d. d \<in> set items) (filter (\<lambda>d. d \<noteq> item) dk))
        = length (filter (\<lambda>d. d \<in> set (item # items)) dk)"
    by (induction dk) auto
  then show ?case
    by (simp add: spliceAll_filter Cons.IH)
qed

lemma removeFromDeck_eq:
  "removeFromDeck A D =
     (length (filter (\<lambda>d. d \<in> set A) D) = length A, filter (\<lambda>d. d \<notin> set A) D)"
proof (cases "removeLoop A D []")
  case (Pair removed rest)
  then show ?thesis
    using removeLoop_snd [of A D "[]"] removeLoop_fst_length [of A D "[]"]
    by (simp add: removeFromDeck_def)
qed

lemma removed_distinct_deck:
  assumes "distinct D"
  shows "length (filter (\<lambda>d. d \<in> set A) D) \<le> card (set A)"
proof -
  have "length (filter (\<lambda>d. d \<in> set A) D) = card (set (filter (\<lambda>d. d \<in> set A) D))"
    using assms distinct_card [of "filter (\<lambda>d. d \<in> set A) D"] by simp
  also have "\<dots> \<le> card (set A)"
    by (rule card_mono) auto
  finally show ?thesis .
qed

lemma removed_covering_deck:
  assumes "distinct A" "set A \<subseteq> set D"
  shows "length (filter (\<lambda>d. d \<in> set A) D) = (\<Sum>a\<leftarrow>A. count_list D a)"
  using assms
proof (induction A)
  case Nil
  then show ?case by simp
next
  case (Cons a A)
  have "length (filter (\<lambda>d. d \<in> set (a # A)) D)
        = length (filter (\<lambda>d. d = a) D) + length (filter (\<lambda>d. d \<in> set A) D)"
    using Cons.prems(1) by (induction D) auto
  moreover have "length (filter (\<lambda>d. d = a) D) = count_list D a"
    by (induction D) auto
  ultimately show ?case using Cons by simp
qed

lemma length_le_sum_list:
  "\<forall>x\<in>set A. 1 \<le> f x \<Longrightarrow> length A \<le> sum_list (map f A)" for f :: "'a \<Rightarrow> nat"
  by (induction A) (auto simp: Suc_le_eq add_strict_increasing less_Suc_eq_le intro: add_mono)

lemma length_less_sum_list:
  "\<forall>x\<in>set A. 1 \<le> f x \<Longrightarrow> a \<in> set A \<Longrightarrow> 1 < f a \<Longrightarrow> length A < sum_list (map f A)"
  for f :: "'a \<Rightarrow> nat"
proof (induction A)
  case Nil
  then show ?case by simp
next
  case (Cons b A)
  have le: "length A \<le> sum_list (map f A)"
    using Cons.prems(1) by (simp add: length_le_sum_list)
  show ?case
  proof (cases "a = b")
    case True
    with le Cons.prems(3) show ?thesis by simp
  next
    case False
    with Cons have "length A < sum_list (map f A)" by simp
    moreover have "1 \<le> f b" using Cons.prems(1) by simp
    ultimately show ?thesis by simp
  qed
qed

lemma resubmitted_card_fails:
  "distinct D \<Longrightarrow> \<not> distinct A \<Longrightarrow> fst (removeFromDeck A D) = False"
  using removed_distinct_deck[of D A] card_distinct[of A] card_length[of A]
  by (auto simp: removeFromDeck_eq)

lemma duplicated_card_fails:
  assumes "distinct A" "set A \<subseteq> set D" "a \<in> set A" "1 < count_list D a"
  shows "fst (removeFromDeck A D) = False"
proof -
  have "\<forall>x\<in>set A. 1 \<le> count_list D x"
  proof
    fix x assume "x \<in> set A"
    with assms(2) have "x \<in> set D" by blast
    then have "count_list D x \<noteq> 0" by (simp add: count_list_0_iff)
    then show "1 \<le> count_list D x" by simp
  qed
  then have "length A < (\<Sum>a\<leftarrow>A. count_list D a)"
    using assms(3,4) by (rule length_less_sum_list)
  then show ?thesis
    using removed_covering_deck[OF assms(1,2)] by (simp add: removeFromDeck_eq)
qed

text \<open>
  For every array \<open>A\<close> and deck \<open>D\<close>, \<^verbatim>\<open>removeFromDeck\<close> removes from \<open>D\<close> every
  element equal to some element of \<open>A\<close> and returns true exactly when the number of
  elements removed is the length of \<open>A\<close>; the remaining deck is the same for any
  permutation of \<open>A\<close>.
\<close>

lemma removeFromDeck_every_match:
  "snd (removeFromDeck A D) = filter (\<lambda>d. d \<notin> set A) D
   \<and> fst (removeFromDeck A D) = (length (filter (\<lambda>d. d \<in> set A) D) = length A)"
  by (simp add: removeFromDeck_eq)

lemma removeFromDeck_permutation:
  assumes "mset A' = mset A"
  shows "snd (removeFromDeck A' D) = snd (removeFromDeck A D)"
proof -
  have "set A' = set A"
    using assms by (rule mset_eq_setD)
  then show ?thesis
    by (simp add: removeFromDeck_eq)
qed

text \<open>
  Claim C5. The count is one total over all items, so a card removed twice makes up for a
  card that is not removed at all: for the items \<open>7, 9\<close> and a deck that holds \<open>7\<close> twice
  and \<open>9\<close> never, \<^verbatim>\<open>removeFromDeck\<close> empties the deck and returns true, although \<open>7\<close> has
  a duplicate in the deck and \<open>9\<close> was not removed from it. The same happens when \<open>7\<close> is
  submitted twice.
\<close>

theorem removeFromDeck_duplicates_pass_the_count:
  "removeFromDeck [''7'', ''9''] [''7'', ''7''] = (True, [])
   \<and> 1 < count_list [''7'', ''7''] ''7'' \<and> ''9'' \<notin> set [''7'', ''7'']
   \<and> removeFromDeck [''7'', ''7''] [''7'', ''7''] = (True, [])
   \<and> \<not> distinct [''7'', ''7'']"
  by (simp add: removeFromDeck_def)

text \<open>
  Claim C10. \<^verbatim>\<open>removeFromDeck\<close> is not atomic on failure: on the items \<open>a, b\<close> and the
  deck \<open>a, c\<close> it returns false, and the deck it leaves has already lost \<open>a\<close>.
\<close>

theorem removeFromDeck_not_atomic:
  "fst (removeFromDeck [''a'', ''b''] [''a'', ''c'']) = False
   \<and> snd (removeFromDeck [''a'', ''b''] [''a'', ''c'']) = [''c'']
   \<and> snd (removeFromDeck [''a'', ''b''] [''a'', ''c'']) \<noteq> [''a'', ''c'']"
  by (simp add: removeFromDeck_def)

section \<open>Properties of analyzeCards\<close>

lemma compareDecks_mset_rev: "compareDecks xs ys = (mset ys = mset xs)"
  by (auto simp: compareDecks_mset)

lemma invokeAll_stored:
  "invokeAll f (Some kc) vals = Inr (map (f (lastKeypair kc)) vals)"
  by (simp add: invokeAll_def)

lemma invokeAll_throws:
  "invokeAll f kc vals = Inl t \<Longrightarrow> t = TypeErrorThrown"
  by (auto simp: invokeAll_def split: if_splits option.splits)

lemma stageMatches_shift:
  "stageMatches c kcs (p # d) (Suc (Suc j)) = stageMatches c kcs d (Suc j)"
  by (simp add: stageMatches_def cong: option.case_cong)

lemma stageMatches_first:
  "kcs (fromPID s) = Some kc \<Longrightarrow>
   stageMatches c kcs (p # s # d) (Suc 0)
     = (mset (map (encrypt c (lastKeypair kc)) (cards p)) = mset (cards s))"
  by (simp add: stageMatches_def)

lemma deckLoop_fails_at:
  assumes "i < length rest"
    and "\<forall>j\<le>i. kcs (fromPID (rest ! j)) \<noteq> None"
    and "\<forall>j<i. stageMatches c kcs (prev # rest) (Suc j)"
    and "\<not> stageMatches c kcs (prev # rest) (Suc i)"
  shows "deckLoop c kcs cnt (cards prev) rest
           = Inl (ErrorThrown \<lparr>message = DeckEncryptionFailed (cnt + i) (fromPID (rest ! i)),
                                code = Some 1\<rparr>)"
  using assms
proof (induction rest arbitrary: i cnt prev)
  case Nil
  then show ?case by simp
next
  case (Cons s rest)
  from Cons.prems(2) obtain kc where kc: "kcs (fromPID s) = Some kc"
    by (metis le0 nth_Cons_0 not_None_eq)
  show ?case
  proof (cases i)
    case 0
    with Cons.prems(4) kc show ?thesis
      by (simp add: stageMatches_first invokeAll_stored compareDecks_mset_rev)
  next
    case (Suc i')
    have m0: "stageMatches c kcs (prev # s # rest) (Suc 0)"
      using Cons.prems(3) Suc by blast
    have ih: "deckLoop c kcs (cnt + 1) (cards s) rest
           = Inl (ErrorThrown \<lparr>message = DeckEncryptionFailed ((cnt + 1) + i') (fromPID (rest ! i')),
                                code = Some 1\<rparr>)"
    proof (rule Cons.IH)
      show "i' < length rest" using Cons.prems(1) Suc by simp
      show "\<forall>j\<le>i'. kcs (fromPID (rest ! j)) \<noteq> None"
        using Cons.prems(2) Suc by (metis Suc_le_mono nth_Cons_Suc)
      show "\<forall>j<i'. stageMatches c kcs (s # rest) (Suc j)"
      proof (intro allI impI)
        fix j assume "j < i'"
        then have "stageMatches c kcs (prev # s # rest) (Suc (Suc j))"
          using Cons.prems(3) Suc by simp
        then show "stageMatches c kcs (s # rest) (Suc j)"
          by (simp only: stageMatches_shift)
      qed
      show "\<not> stageMatches c kcs (s # rest) (Suc i')"
        using Cons.prems(4) Suc by (simp add: stageMatches_shift)
    qed
    from m0 kc ih show ?thesis
      by (simp add: stageMatches_first invokeAll_stored compareDecks_mset_rev Suc)
  qed
qed

lemma deckLoop_passes:
  assumes "\<forall>j<length rest. stageMatches c kcs (prev # rest) (Suc j)"
  shows "deckLoop c kcs cnt (cards prev) rest = Inr (cards (last (prev # rest)))"
  using assms
proof (induction rest arbitrary: cnt prev)
  case Nil
  then show ?case by simp
next
  case (Cons s rest)
  have m0: "stageMatches c kcs (prev # s # rest) (Suc 0)"
    using Cons.prems by auto
  then obtain kc where kc: "kcs (fromPID s) = Some kc"
    by (auto simp: stageMatches_def split: option.splits)
  have "\<forall>j<length rest. stageMatches c kcs (s # rest) (Suc j)"
  proof (intro allI impI)
    fix j assume "j < length rest"
    then have "stageMatches c kcs (prev # s # rest) (Suc (Suc j))"
      using Cons.prems by simp
    then show "stageMatches c kcs (s # rest) (Suc j)"
      by (simp only: stageMatches_shift)
  qed
  then have ih: "deckLoop c kcs (cnt + 1) (cards s) rest = Inr (cards (last (s # rest)))"
    by (rule Cons.IH)
  from m0 kc ih show ?case
    by (simp add: stageMatches_first invokeAll_stored compareDecks_mset_rev)
qed

lemma analyzeCards_stage_failure:
  assumes a: "analysisField st = Some a"
    and i: "1 \<le> i" "i < length (deck st)"
    and kc: "keychains st (fromPID (deck st ! i)) \<noteq> None"
    and ok: "\<forall>j. 1 \<le> j \<and> j < i \<longrightarrow> stageMatches c (keychains st) (deck st) j"
    and bad: "\<not> stageMatches c (keychains st) (deck st) i"
  shows "analyzeCards c st =
           (Inl (ErrorThrown (stageError (deck st) i)),
            st\<lparr>analysisField :=
                 Some (a\<lparr>error := ErrorSet (stageError (deck st) i), complete := Some True\<rparr>)\<rparr>)"
proof -
  from i obtain first rest where d: "deck st = first # rest"
    by (cases "deck st") auto
  from i obtain i' where i': "i = Suc i'"
    by (cases i) auto
  have "deckLoop c (keychains st) 1 (cards first) rest
          = Inl (ErrorThrown \<lparr>message = DeckEncryptionFailed (1 + i') (fromPID (rest ! i')),
                                code = Some 1\<rparr>)"
  proof (rule deckLoop_fails_at)
    show "i' < length rest" using i d i' by simp
    show "\<forall>j\<le>i'. keychains st (fromPID (rest ! j)) \<noteq> None"
    proof (intro allI impI)
      fix j assume j: "j \<le> i'"
      show "keychains st (fromPID (rest ! j)) \<noteq> None"
      proof (cases "j = i'")
        case True
        with kc show ?thesis by (simp add: d i')
      next
        case False
        with j have "stageMatches c (keychains st) (deck st) (Suc j)"
          using ok i' by simp
        then show ?thesis
          by (auto simp: stageMatches_def d split: option.splits)
      qed
    qed
    show "\<forall>j<i'. stageMatches c (keychains st) (first # rest) (Suc j)"
      using ok i' d by simp
    show "\<not> stageMatches c (keychains st) (first # rest) (Suc i')"
      using bad i' d by simp
  qed
  then show ?thesis
    using a by (simp add: analyzeCards_def d i' stageError_def failAnalysis_def)
qed

lemma failWithAddresses_code:
  "failWithAddresses msg p1 p2 st = (ErrorThrown e, st') \<Longrightarrow> code e = Some 2"
  by (auto simp: failWithAddresses_def failAnalysis_def Let_def split: option.splits prod.splits)

lemma dealStep_code:
  "dealStep c st src cnt n prev cur ds = Inl (ErrorThrown e, st') \<Longrightarrow> code e = Some 2"
  by (auto simp: dealStep_def Let_def failAnalysis_def
      split: if_splits option.splits sum.splits prod.splits
      dest: failWithAddresses_code invokeAll_throws)

lemma dealLoop_code:
  "dealLoop c st src n cnt prev ds0 ds = Inl (ErrorThrown e, st') \<Longrightarrow> code e = Some 2"
  by (induction ds0 arbitrary: cnt prev ds) (auto split: sum.splits dest: dealStep_code)

lemma dealsLoop_code:
  "dealsLoop c st dls ds = Inl (ErrorThrown e, st') \<Longrightarrow> code e = Some 2"
  by (induction dls arbitrary: ds) (auto split: sum.splits dest: dealLoop_code)

lemma analyzeCards_stages_pass:
  assumes ok: "\<forall>j. 1 \<le> j \<and> j < length (deck st) \<longrightarrow> stageMatches c (keychains st) (deck st) j"
    and r: "analyzeCards c st = (Inl (ErrorThrown e), st')"
  shows "code e = Some 2"
proof (cases "deck st")
  case Nil
  with r show ?thesis by (simp add: analyzeCards_def)
next
  case (Cons first rest)
  have "deckLoop c (keychains st) 1 (cards first) rest = Inr (cards (last (first # rest)))"
    by (rule deckLoop_passes) (use ok Cons in simp)
  with r Cons show ?thesis
    by (auto simp: analyzeCards_def split: sum.splits prod.splits dest: dealsLoop_code)
qed

text \<open>
  Claim C1. For a deck of the plaintext snapshot and \<open>n\<close> encryption snapshots,
  \<^verbatim>\<open>analyzeCards\<close> verifies the stages 1 to \<open>n\<close> in order, stage \<open>i\<close> by encrypting every
  card of snapshot \<open>i - 1\<close> under the last keypair of the keychain stored for the sender of
  snapshot \<open>i\<close> and comparing the results with the cards of snapshot \<open>i\<close> as multisets.
  When every stage matches, no error of the deck is raised: an error the analysis then
  throws carries the code 2 of the deals. At the first stage that does not match (its
  sender's keychain being stored, and the analysis object existing as it does when the
  keychain handler calls), the promise is rejected with the error of code 1 naming that
  stage and that sender, the error is stored in the analysis, the analysis is marked
  complete, and the result is the same whatever deals were captured.
\<close>

theorem analyzeCards_verifies_each_stage:
  "((\<forall>j. 1 \<le> j \<and> j < length (deck st) \<longrightarrow> stageMatches c (keychains st) (deck st) j)
      \<longrightarrow> (\<forall>e st'. analyzeCards c st = (Inl (ErrorThrown e), st') \<longrightarrow> code e = Some 2))
   \<and> (analysisField st = Some a \<and> 1 \<le> i \<and> i < length (deck st)
        \<and> keychains st (fromPID (deck st ! i)) \<noteq> None
        \<and> (\<forall>j. 1 \<le> j \<and> j < i \<longrightarrow> stageMatches c (keychains st) (deck st) j)
        \<and> \<not> stageMatches c (keychains st) (deck st) i
      \<longrightarrow> analyzeCards c st =
            (Inl (ErrorThrown (stageError (deck st) i)),
             st\<lparr>analysisField :=
                  Some (a\<lparr>error := ErrorSet (stageError (deck st) i), complete := Some True\<rparr>)\<rparr>)
          \<and> code (stageError (deck st) i) = Some 1
          \<and> message (stageError (deck st) i) = DeckEncryptionFailed i (fromPID (deck st ! i))
          \<and> fst (analyzeCards c (st\<lparr>deals := dls\<rparr>)) = Inl (ErrorThrown (stageError (deck st) i)))"
proof (intro conjI impI allI)
  fix e st'
  assume "\<forall>j. 1 \<le> j \<and> j < length (deck st) \<longrightarrow> stageMatches c (keychains st) (deck st) j"
    and "analyzeCards c st = (Inl (ErrorThrown e), st')"
  then show "code e = Some 2"
    by (rule analyzeCards_stages_pass)
next
  assume h: "analysisField st = Some a \<and> 1 \<le> i \<and> i < length (deck st)
        \<and> keychains st (fromPID (deck st ! i)) \<noteq> None
        \<and> (\<forall>j. 1 \<le> j \<and> j < i \<longrightarrow> stageMatches c (keychains st) (deck st) j)
        \<and> \<not> stageMatches c (keychains st) (deck st) i"
  then show "analyzeCards c st =
            (Inl (ErrorThrown (stageError (deck st) i)),
             st\<lparr>analysisField :=
                  Some (a\<lparr>error := ErrorSet (stageError (deck st) i), complete := Some True\<rparr>)\<rparr>)"
    by (intro analyzeCards_stage_failure) auto
  show "code (stageError (deck st) i) = Some 1"
    by (simp add: stageError_def)
  show "message (stageError (deck st) i) = DeckEncryptionFailed i (fromPID (deck st ! i))"
    by (simp add: stageError_def)
  have "analyzeCards c (st\<lparr>deals := dls\<rparr>) =
            (Inl (ErrorThrown (stageError (deck (st\<lparr>deals := dls\<rparr>)) i)),
             (st\<lparr>deals := dls\<rparr>)\<lparr>analysisField :=
                  Some (a\<lparr>error := ErrorSet (stageError (deck (st\<lparr>deals := dls\<rparr>)) i), complete := Some True\<rparr>)\<rparr>)"
    by (intro analyzeCards_stage_failure) (use h in auto)
  then show "fst (analyzeCards c (st\<lparr>deals := dls\<rparr>)) = Inl (ErrorThrown (stageError (deck st) i))"
    by simp
qed


theorem analyzeCards_verifies_each_stage_witness:
  "analysisField tamperedAnalyzer = Some newAnalysis \<and> (1::nat) \<le> 2
   \<and> 2 < length (deck tamperedAnalyzer)
   \<and> keychains tamperedAnalyzer (fromPID (deck tamperedAnalyzer ! 2)) \<noteq> None
   \<and> stageMatches toyCrypto (keychains tamperedAnalyzer) (deck tamperedAnalyzer) 1
   \<and> \<not> stageMatches toyCrypto (keychains tamperedAnalyzer) (deck tamperedAnalyzer) 2
   \<and> fst (analyzeCards toyCrypto tamperedAnalyzer)
       = Inl (ErrorThrown \<lparr>message = DeckEncryptionFailed 2 ''P2'', code = Some 1\<rparr>)
   \<and> analysisField (snd (analyzeCards toyCrypto tamperedAnalyzer))
       = Some (newAnalysis\<lparr>error := ErrorSet \<lparr>message = DeckEncryptionFailed 2 ''P2'', code = Some 1\<rparr>,
                            complete := Some True\<rparr>)"
proof -
  have h1: "analysisField tamperedAnalyzer = Some newAnalysis"
    by (simp add: tamperedAnalyzer_def)
  have h2: "2 < length (deck tamperedAnalyzer)"
    by (simp add: tamperedAnalyzer_def)
  have h3: "keychains tamperedAnalyzer (fromPID (deck tamperedAnalyzer ! 2)) \<noteq> None"
    by (simp add: tamperedAnalyzer_def)
  have h4: "stageMatches toyCrypto (keychains tamperedAnalyzer) (deck tamperedAnalyzer) 1"
    by (simp add: tamperedAnalyzer_def stageMatches_def toyCrypto_def lastKeypair_def)
  have h5: "\<not> stageMatches toyCrypto (keychains tamperedAnalyzer) (deck tamperedAnalyzer) 2"
    by (simp add: tamperedAnalyzer_def stageMatches_def toyCrypto_def lastKeypair_def)
  have h6: "\<forall>j. 1 \<le> j \<and> j < 2 \<longrightarrow>
              stageMatches toyCrypto (keychains tamperedAnalyzer) (deck tamperedAnalyzer) j"
  proof (intro allI impI)
    fix j :: nat
    assume "1 \<le> j \<and> j < 2"
    then have "j = 1" by arith
    with h4 show "stageMatches toyCrypto (keychains tamperedAnalyzer) (deck tamperedAnalyzer) j"
      by simp
  qed
  have e: "stageError (deck tamperedAnalyzer) 2
             = \<lparr>message = DeckEncryptionFailed 2 ''P2'', code = Some 1\<rparr>"
    by (simp add: stageError_def tamperedAnalyzer_def)
  from analyzeCards_verifies_each_stage
         [of tamperedAnalyzer toyCrypto newAnalysis 2 "[]"] h1 h2 h3 h5 h6
  have "analyzeCards toyCrypto tamperedAnalyzer =
            (Inl (ErrorThrown (stageError (deck tamperedAnalyzer) 2)),
             tamperedAnalyzer\<lparr>analysisField :=
                  Some (newAnalysis\<lparr>error := ErrorSet (stageError (deck tamperedAnalyzer) 2),
                                     complete := Some True\<rparr>)\<rparr>)"
    by simp
  with h1 h2 h3 h4 h5 e show ?thesis
    by simp
qed

text \<open>
  Claim C9. With no deck snapshot captured, \<^verbatim>\<open>analyzeCards\<close> resolves with null: nothing
  is thrown, the analyzer is left as it was, and an analysis whose error is null keeps the
  null error.
\<close>

theorem analyzeCards_without_deck:
  "deck st = [] \<Longrightarrow>
     analyzeCards c st = (Inr None, st)
     \<and> error (fst (getAnalysis (snd (analyzeCards c st)))) = error (fst (getAnalysis st))
     \<and> error (fst (getAnalysis (snd (analyzeCards c (st\<lparr>analysisField := None\<rparr>))))) = ErrorNull"
  by (simp add: analyzeCards_def getAnalysis_def newAnalysis_def)

theorem analyzeCards_without_deck_witness:
  "deck (freshAnalyzer [alice, bob]) = []
   \<and> analyzeCards toyCrypto (freshAnalyzer [alice, bob]) = (Inr None, freshAnalyzer [alice, bob])
   \<and> error (fst (getAnalysis (snd (analyzeCards toyCrypto (freshAnalyzer [alice, bob])))))
       = ErrorNull"
proof -
  have h: "deck (freshAnalyzer [alice, bob]) = []"
    by (simp add: freshAnalyzer_def)
  have n: "(freshAnalyzer [alice, bob])\<lparr>analysisField := None\<rparr> = freshAnalyzer [alice, bob]"
    by (simp add: freshAnalyzer_def)
  from analyzeCards_without_deck [OF h, of toyCrypto, unfolded n] h show ?thesis
    by blast
qed

section \<open>Properties of the keychain commitment\<close>

subsection \<open>The timer\<close>

text \<open>
  Whenever the armed timer elapses, the handler marks the analysis complete and throws an
  error that names the table and has no code; the error of the analysis, the events
  dispatched, the deck and the keychain listener are as they were.
\<close>

lemma timerElapses_throws:
  assumes "timer rt = Some armed"
  shows "\<exists>e rt2. timerElapses rt = Some (ErrorThrown e, rt2)
          \<and> message e = KeychainsNotCommitted (tableID (analyzerOf rt)) \<and> code e = None
          \<and> complete (fst (getAnalysis (analyzerOf rt2))) = Some True
          \<and> error (fst (getAnalysis (analyzerOf rt2))) = error (fst (getAnalysis (analyzerOf rt)))
          \<and> dispatched (analyzerOf rt2) = dispatched (analyzerOf rt)
          \<and> deck (analyzerOf rt2) = deck (analyzerOf rt)
          \<and> keychainListener (analyzerOf rt2) = keychainListener (analyzerOf rt)
          \<and> timer rt2 = None"
  using assms
  by (simp add: timerElapses_def onKCSTimeout_def getAnalysis_def Let_def split: option.splits)

text \<open>
  Claim C2. On a hand of two players of whom the second never commits a keychain, the
  analyze event arms the timer with the default delay of 10000 ms. When the timer elapses,
  no verification starts (no event is dispatched) and the analysis is marked complete, but
  the error thrown carries no code and the error of the analysis stays null: the failure
  is not recorded as the failures of \<^verbatim>\<open>analyzeCards\<close> are, which set a code on the error
  and store it in the analysis.
\<close>

theorem keychain_timeout_not_recorded:
  "fst (onGameAnalyze waitingRuntime) = Inr True
   \<and> timer (snd (onGameAnalyze waitingRuntime)) = Some (1, 10000)
   \<and> fst (allKeychainsCommitted (analyzerOf (snd (onGameAnalyze waitingRuntime)))) = False
   \<and> map_option fst (timerElapses (snd (onGameAnalyze waitingRuntime)))
       = Some (ErrorThrown \<lparr>message = KeychainsNotCommitted ''T'', code = None\<rparr>)
   \<and> map_option (\<lambda>r. error (fst (getAnalysis (analyzerOf (snd r)))))
         (timerElapses (snd (onGameAnalyze waitingRuntime))) = Some ErrorNull
   \<and> map_option (\<lambda>r. complete (fst (getAnalysis (analyzerOf (snd r)))))
         (timerElapses (snd (onGameAnalyze waitingRuntime))) = Some (Some True)
   \<and> map_option (\<lambda>r. dispatched (analyzerOf (snd r)))
         (timerElapses (snd (onGameAnalyze waitingRuntime))) = Some []"
  by code_simp

subsection \<open>Storing a keychain\<close>

lemma getAnalysis_keychains [simp]: "keychains (snd (getAnalysis st)) = keychains st"
  by (simp add: getAnalysis_def split: option.splits)

lemma getPlayers_keychains [simp]: "keychains (snd (getPlayers st)) = keychains st"
  by (simp add: getPlayers_def refreshPlayers_def split: option.splits)

lemma getAnalysis_keychains_pair:
  "getAnalysis st = (a, st') \<Longrightarrow> keychains st' = keychains st"
  by (auto simp: getAnalysis_def split: option.splits)

lemma failAnalysis_keychains: "failAnalysis e st = (t, st') \<Longrightarrow> keychains st' = keychains st"
  by (auto simp: failAnalysis_def split: option.splits)

lemma failWithAddresses_keychains:
  "failWithAddresses msg p1 p2 st = (t, st') \<Longrightarrow> keychains st' = keychains st"
  by (auto simp: failWithAddresses_def Let_def getPlayers_def refreshPlayers_def
      split: option.splits prod.splits dest!: failAnalysis_keychains)

lemma dealStep_keychains:
  "dealStep c st src cnt n prev cur ds = Inl (t, st') \<Longrightarrow> keychains st' = keychains st"
  by (auto simp: dealStep_def Let_def
      split: if_splits option.splits sum.splits prod.splits
      dest: failWithAddresses_keychains failAnalysis_keychains)

lemma dealLoop_keychains:
  "dealLoop c st src n cnt prev ds0 ds = Inl (t, st') \<Longrightarrow> keychains st' = keychains st"
  by (induction ds0 arbitrary: cnt prev ds) (auto split: sum.splits dest: dealStep_keychains)

lemma dealsLoop_keychains:
  "dealsLoop c st dls ds = Inl (t, st') \<Longrightarrow> keychains st' = keychains st"
  by (induction dls arbitrary: ds) (auto split: sum.splits dest: dealLoop_keychains)

lemma analyzeCards_keychains: "keychains (snd (analyzeCards c st)) = keychains st"
  by (auto simp: analyzeCards_def Let_def
      split: list.splits sum.splits thrown.splits prod.splits
      dest: dealsLoop_keychains failAnalysis_keychains)

lemma scoreHands_keychains: "keychains (snd (scoreHands st obj)) = keychains st"
  by (auto simp: scoreHands_def Let_def split: sum.splits prod.splits
      dest!: getAnalysis_keychains_pair)

lemma dispatchEvent_keychains [simp]: "keychains (dispatchEvent ev st) = keychains st"
  by (simp add: dispatchEvent_def Let_def)

lemma committedLoop_keeps:
  "kcs p = Some k \<Longrightarrow> snd (committedLoop ps kcs) p = Some k"
  by (induction ps arbitrary: kcs) (auto simp: Let_def split: option.splits)

lemma allKeychainsCommitted_keeps:
  "keychains st p = Some k \<Longrightarrow> keychains (snd (allKeychainsCommitted st)) p = Some k"
  using committedLoop_keeps [of "keychains (snd (getPlayers st))" p k "fst (getPlayers st)"]
  by (simp add: allKeychainsCommitted_def Let_def case_prod_beta)

lemma onPlayerKeychain_keeps:
  assumes "((keychains (analyzerOf rt))(p \<mapsto> kc)) q = Some k"
  shows "keychains (analyzerOf (snd (onPlayerKeychain c p kc rt))) q = Some k"
proof -
  let ?st1 = "(analyzerOf rt)\<lparr>active := True, keychains := (keychains (analyzerOf rt))(p \<mapsto> kc)\<rparr>"
  let ?st2 = "snd (allKeychainsCommitted ?st1)"
  let ?st4 = "dispatchEvent Analyzing (?st2\<lparr>keychainListener := False\<rparr>)"
  let ?st5 = "snd (analyzeCards c ?st4)"
  have 1: "keychains ?st1 q = Some k" using assms by simp
  have 2: "keychains ?st2 q = Some k"
    using 1 by (rule allKeychainsCommitted_keeps)
  have 5: "keychains ?st5 q = Some k"
    using 2 by (simp add: analyzeCards_keychains)
  have 6: "keychains (dispatchEvent Analyzed (?st5\<lparr>analysisField := r\<rparr>)) q = Some k" for r
    using 5 by simp
  have 7: "keychains (snd (scoreHands (dispatchEvent Analyzed (?st5\<lparr>analysisField := r\<rparr>)) obj)) q = Some k" for r obj
    using 6 by (simp add: scoreHands_keychains)
  show ?thesis
  proof (cases "fst (allKeychainsCommitted ?st1)")
    case False
    with 2 show ?thesis
      by (simp add: onPlayerKeychain_def Let_def case_prod_beta)
  next
    case True
    show ?thesis
    proof (cases "fst (analyzeCards c ?st4)")
      case (Inl err)
      with True 5 show ?thesis
        by (simp add: onPlayerKeychain_def Let_def case_prod_beta)
    next
      case (Inr res)
      with True 6 7 show ?thesis
        by (simp add: onPlayerKeychain_def Let_def case_prod_beta split: option.splits sum.splits)
    qed
  qed
qed

text \<open>
  Claim C3, as amended. Recording a keychain is an upsert per player in which the last
  submission wins: after the handler the keychain stored for the submitting private ID is
  the submitted one, whatever was stored before, and the keychains stored for the other
  IDs are unchanged; submitting the stored keychain again changes nothing.
\<close>

theorem onPlayerKeychain_last_submission_wins:
  "keychains (analyzerOf (snd (onPlayerKeychain c p kc rt))) p = Some kc
   \<and> (q \<noteq> p \<and> keychains (analyzerOf rt) q = Some k
        \<longrightarrow> keychains (analyzerOf (snd (onPlayerKeychain c p kc rt))) q = Some k)
   \<and> (keychains (analyzerOf rt) p = Some kc
        \<longrightarrow> keychains (analyzerOf (snd (onPlayerKeychain c p kc rt))) p
              = keychains (analyzerOf rt) p)"
proof (intro conjI impI)
  show 1: "keychains (analyzerOf (snd (onPlayerKeychain c p kc rt))) p = Some kc"
    by (rule onPlayerKeychain_keeps) simp
  show "keychains (analyzerOf (snd (onPlayerKeychain c p kc rt))) q = Some k"
    if "q \<noteq> p \<and> keychains (analyzerOf rt) q = Some k"
    by (rule onPlayerKeychain_keeps) (use that in simp)
  show "keychains (analyzerOf (snd (onPlayerKeychain c p kc rt))) p = keychains (analyzerOf rt) p"
    if "keychains (analyzerOf rt) p = Some kc"
    using 1 that by simp
qed

theorem onPlayerKeychain_last_submission_wins_witness:
  "(''P1'' \<noteq> ''P3''
     \<and> keychains (analyzerOf (snd (onPlayerKeychain toyCrypto ''P1'' [''a''] waitingRuntime))) ''P1''
         = Some [''a''])
   \<and> keychains (analyzerOf (snd (onPlayerKeychain toyCrypto ''P3'' [''c'']
                    (snd (onPlayerKeychain toyCrypto ''P1'' [''a''] waitingRuntime))))) ''P3''
       = Some [''c'']
   \<and> keychains (analyzerOf (snd (onPlayerKeychain toyCrypto ''P3'' [''c'']
                    (snd (onPlayerKeychain toyCrypto ''P1'' [''a''] waitingRuntime))))) ''P1''
       = Some [''a'']
   \<and> keychains (analyzerOf (snd (onPlayerKeychain toyCrypto ''P1'' [''a'']
                    (snd (onPlayerKeychain toyCrypto ''P1'' [''a''] waitingRuntime))))) ''P1''
       = keychains (analyzerOf (snd (onPlayerKeychain toyCrypto ''P1'' [''a''] waitingRuntime))) ''P1''"
proof -
  let ?rt = "snd (onPlayerKeychain toyCrypto ''P1'' [''a''] waitingRuntime)"
  have h: "keychains (analyzerOf ?rt) ''P1'' = Some [''a'']"
    using onPlayerKeychain_last_submission_wins [of toyCrypto "''P1''" "[''a'']" waitingRuntime]
    by blast
  have n: "''P1'' \<noteq> ''P3''"
    by simp
  from h n
    onPlayerKeychain_last_submission_wins [of toyCrypto "''P3''" "[''c'']" ?rt "''P1''" "[''a'']"]
    onPlayerKeychain_last_submission_wins [of toyCrypto "''P1''" "[''a'']" ?rt]
  show ?thesis
    by blast
qed

text \<open>
  The claim as written fails: while the listener is registered, a second submission by
  the same private ID replaces the keychain stored by the first.
\<close>

theorem onPlayerKeychain_resubmission_counterexample:
  "keychains (analyzerOf (snd (onPlayerKeychain toyCrypto ''P1'' [''a''] waitingRuntime))) ''P1''
     = Some [''a'']
   \<and> keychainListener (analyzerOf (snd (onPlayerKeychain toyCrypto ''P1'' [''a''] waitingRuntime)))
   \<and> keychains (analyzerOf (snd (onPlayerKeychain toyCrypto ''P1'' [''z'']
                    (snd (onPlayerKeychain toyCrypto ''P1'' [''a''] waitingRuntime))))) ''P1''
       = Some [''z'']
   \<and> [''z''] \<noteq> [''a'']"
  by code_simp

section \<open>Properties of the hand scorer\<close>

subsection \<open>The groups of a hand\<close>

lemma firstKeys_snoc:
  "firstKeys (xs @ [k]) = (if k \<in> set xs then firstKeys xs else firstKeys xs @ [k])"
  by (simp add: firstKeys_def)

lemma firstKeys_set [simp]: "set (firstKeys xs) = set xs"
  by (simp add: firstKeys_def)

lemma firstKeys_distinct [simp]: "distinct (firstKeys xs)"
  by (simp add: firstKeys_def)

lemma pushGroup_tabulated:
  "pushGroup k v (map (\<lambda>k'. (k', f k')) ks) =
     (if k \<in> set ks
      then map (\<lambda>k'. (k', if k' = k then f k' @ [v] else f k')) ks
      else map (\<lambda>k'. (k', f k')) ks @ [(k, [v])])"
  if "distinct ks"
  using that by (induction ks) auto

lemma groupCards_snoc:
  "groupCards key (h @ [c]) = pushGroup (key c) c (groupCards key h)"
  by (simp add: groupCards_def)

lemma groupCards_tabulated:
  "groupCards key h = map (\<lambda>k. (k, filter (\<lambda>c. key c = k) h)) (firstKeys (map key h))"
proof (induction h rule: rev_induct)
  case Nil
  show ?case by (simp add: groupCards_def firstKeys_def)
next
  case (snoc c h)
  show ?case
  proof (cases "key c \<in> set (map key h)")
    case True
    then show ?thesis
      by (simp add: groupCards_snoc snoc.IH pushGroup_tabulated firstKeys_snoc)
  next
    case False
    then have "\<forall>x\<in>set h. key x \<noteq> key c"
      by (metis image_eqI set_map)
    then have "filter (\<lambda>x. key x = key c) h = []"
      by (simp add: filter_empty_conv)
    with False show ?thesis
      by (auto simp add: groupCards_snoc snoc.IH pushGroup_tabulated firstKeys_snoc)
  qed
qed

lemma length_groupCards: "length (groupCards key h) = card (key ` set h)"
  by (simp add: groupCards_tabulated firstKeys_def distinct_card [symmetric] del: set_map)
     (metis distinct_card distinct_remdups length_rev set_map set_remdups set_rev)

lemma insort_key_tabulated:
  "insort_key fst (k, f k) (map (\<lambda>k'. (k', f k')) ks) = map (\<lambda>k'. (k', f k')) (insort k ks)"
  by (induction ks) auto

lemma sort_key_tabulated:
  "sort_key fst (map (\<lambda>k. (k, f k)) ks) = map (\<lambda>k. (k, f k)) (sort ks)"
  by (induction ks) (auto simp: insort_key_tabulated)

lemma sort_firstKeys: "sort (firstKeys xs) = sorted_list_of_set (set xs)"
proof -
  have "sorted_list_of_set (set (firstKeys xs)) = sort (remdups (firstKeys xs))"
    by (rule sorted_list_of_set_sort_remdups)
  then show ?thesis
    by (simp add: distinct_remdups_id)
qed

lemma valueGroups_tabulated:
  assumes "\<forall>c\<in>set h. isArrayIndex (cardValue c)"
  shows "objectEntries (groupCards cardValue h)
           = map (\<lambda>v. (v, filter (\<lambda>c. cardValue c = v) h))
               (sorted_list_of_set (cardValue ` set h))"
proof -
  have "filter (\<lambda>g. isArrayIndex (fst g)) (groupCards cardValue h) = groupCards cardValue h"
    using assms by (auto simp: groupCards_tabulated filter_map o_def filter_id_conv)
  moreover have "filter (\<lambda>g. \<not> isArrayIndex (fst g)) (groupCards cardValue h) = []"
    using assms by (auto simp: groupCards_tabulated filter_empty_conv)
  ultimately show ?thesis
    by (simp add: objectEntries_def)
       (simp add: groupCards_tabulated sort_key_tabulated sort_firstKeys)
qed

subsection \<open>What the score depends on\<close>

lemma getCardSum_sum: "getCardSum cs = sum_list (map highvalue cs)"
proof -
  have "foldl (\<lambda>s c. s + highvalue c) a cs = a + sum_list (map highvalue cs)" for a
    by (induction cs arbitrary: a) auto
  then show ?thesis by (simp add: getCardSum_def)
qed

lemma adjustLoop_stats:
  "adjustLoop n m vg a =
     foldl (\<lambda>adj s. if fst s \<noteq> n then (snd s * m * (-1)) + snd s else adj) a (map groupStats vg)"
  by (simp add: adjustLoop_def foldl_map groupStats_def cong: if_cong)

lemma glen_stats:
  "i < length vg \<Longrightarrow> length (snd (vg ! i)) = fst (map groupStats vg ! i)"
  by (simp add: groupStats_def)

lemma rankHand_cong:
  assumes "length cs1 = length cs2" "map groupStats vg1 = map groupStats vg2"
  shows "rankHand cs1 f sv vg1 = rankHand cs2 f sv vg2"
proof -
  have len: "length vg1 = length vg2"
    using assms(2) by (rule map_eq_imp_length_eq)
  have g: "i < length vg1 \<Longrightarrow> length (snd (vg1 ! i)) = length (snd (vg2 ! i))" for i
    using assms(2) len by (metis glen_stats)
  have a: "adjustLoop n m vg1 x = adjustLoop n m vg2 x" for n m x
    by (simp add: adjustLoop_stats assms(2))
  show ?thesis
  proof (cases "length vg2 = 2")
    case True
    with g [of 0] g [of 1] len assms(1) a show ?thesis
      by (simp add: rankHand_def Let_def)
  next
    case n2: False
    show ?thesis
    proof (cases "length vg2 = 3")
      case True
      with g [of 0] g [of 1] g [of 2] len assms(1) a show ?thesis
        by (simp add: rankHand_def Let_def)
    next
      case False
      with n2 len assms(1) a show ?thesis
        by (simp add: rankHand_def Let_def)
    qed
  qed
qed

lemma handValue_sum:
  "foldl (\<lambda>hv c. if b then hv + highvalue c else hv + cardValue c) a cs
     = a + (if b then sum_list (map highvalue cs) else sum_list (map cardValue cs))"
  by (induction cs arbitrary: a) auto

lemma Max_insert_max:
  "finite S \<Longrightarrow> Max (insert (max a h) S) = Max (insert a (insert h S))" for a :: int
proof (cases "S = {}")
  case True
  then show ?thesis by (simp add: max.commute)
next
  case False
  assume "finite S"
  with False show ?thesis by (simp add: max.assoc)
qed

lemma handValue_max:
  "foldl (\<lambda>hv c. if hv < highvalue c then highvalue c else hv) a cs
     = Max (insert a (highvalue ` set cs))"
proof (induction cs arbitrary: a)
  case Nil
  show ?case by simp
next
  case (Cons c cs)
  have "(if a < highvalue c then highvalue c else a) = max a (highvalue c)"
    by (simp add: max_def)
  then have "foldl (\<lambda>hv c. if hv < highvalue c then highvalue c else hv) a (c # cs)
        = Max (insert (max a (highvalue c)) (highvalue ` set cs))"
    using Cons.IH [of "max a (highvalue c)"] by simp
  also have "\<dots> = Max (insert a (insert (highvalue c) (highvalue ` set cs)))"
    by (rule Max_insert_max) simp
  finally show ?case by simp
qed

lemma handValueOf_eq:
  "handValueOf cs acesHigh m =
     (if m > 1 then (if acesHigh then sum_list (map highvalue cs) else sum_list (map cardValue cs))
      else Max (insert 0 (highvalue ` set cs)))"
  by (simp add: handValueOf_def handValue_sum handValue_max)

lemma straightLoop_mset:
  "mset vs = mset ws \<Longrightarrow> straightLoop vs cs = straightLoop ws cs"
  by (induction cs) (auto simp: compareDecks_mset)

lemma straightType_mset:
  assumes "mset vs = mset ws"
  shows "straightType vs = straightType ws"
proof -
  have "length vs = length ws" using assms by (rule mset_eq_length)
  with assms show ?thesis
    by (simp add: straightType_def straightLoop_mset [OF assms] compareDecks_mset)
qed

subsection \<open>straightType\<close>

lemma straightLoop_None:
  "straightLoop vs cs = None \<longleftrightarrow> (\<forall>k\<in>set cs. mset vs \<noteq> mset (window k))"
  by (induction cs) (auto simp: compareDecks_mset window_def)

lemma straightLoop_Some:
  "straightLoop vs cs = Some k \<Longrightarrow> k \<in> set cs \<and> mset vs = mset (window k)"
  by (induction cs) (auto simp: compareDecks_mset window_def split: if_splits)

lemma window_inj: "mset (window k) = mset (window k') \<Longrightarrow> k = k'"
proof -
  assume "mset (window k) = mset (window k')"
  then have "sum_mset (mset (window k)) = sum_mset (mset (window k'))"
    by simp
  then show ?thesis
    by (simp add: window_def)
qed

lemma straightType_window:
  assumes "1 \<le> k" "k \<le> 9" "mset vs = mset (window k)"
  shows "straightType vs = k"
proof -
  have len: "length vs = 5"
    using mset_eq_length [OF assms(3)] by (simp add: window_def)
  have "k \<in> set [1, 2, 3, 4, 5, 6, 7, 8, 9]"
    using assms(1,2) by (simp) arith
  then have "straightLoop vs [1, 2, 3, 4, 5, 6, 7, 8, 9] \<noteq> None"
    using assms(3) straightLoop_None by blast
  then obtain k' where k': "straightLoop vs [1, 2, 3, 4, 5, 6, 7, 8, 9] = Some k'"
    by blast
  then have "mset vs = mset (window k')"
    using straightLoop_Some by blast
  with assms(3) have "k' = k"
    using window_inj by metis
  with k' len show ?thesis
    by (simp add: straightType_def)
qed

lemma ace_high_not_window: "mset [10, 11, 12, 13, 1] \<noteq> mset (window k)"
proof
  assume eq: "mset [10, 11, 12, 13, 1] = mset (window k)"
  then have "sum_mset (mset [10, 11, 12, 13, 1 :: int]) = sum_mset (mset (window k))"
    by simp
  then have "5 * k = 37"
    by (simp add: window_def)
  then show False by presburger
qed

lemma straightType_ace_high:
  assumes "mset vs = mset [10, 11, 12, 13, 1]"
  shows "straightType vs = 10"
proof -
  have len: "length vs = 5"
    using mset_eq_length [OF assms] by simp
  have "\<forall>k\<in>set [1, 2, 3, 4, 5, 6, 7, 8, 9]. mset vs \<noteq> mset (window k)"
    using assms ace_high_not_window by metis
  then have "straightLoop vs [1, 2, 3, 4, 5, 6, 7, 8, 9] = None"
    by (simp only: straightLoop_None)
  with len assms show ?thesis
    by (simp add: straightType_def compareDecks_mset)
qed

lemma straightType_other:
  assumes "\<forall>k. 1 \<le> k \<and> k \<le> 9 \<longrightarrow> mset vs \<noteq> mset (window k)"
    and "mset vs \<noteq> mset [10, 11, 12, 13, 1]"
  shows "straightType vs = 0"
proof -
  have "\<forall>k\<in>set [1, 2, 3, 4, 5, 6, 7, 8, 9]. mset vs \<noteq> mset (window k)"
    using assms(1) by auto
  then have "straightLoop vs [1, 2, 3, 4, 5, 6, 7, 8, 9] = None"
    by (simp only: straightLoop_None)
  with assms(2) show ?thesis
    by (simp add: straightType_def compareDecks_mset)
qed

subsection \<open>Permutations of a hand\<close>

lemma scoreOf_unfold:
  "scoreOf h =
     (let r = rankHand h (sameSuit h \<and> length h = 5) (straightType (map cardValue h))
                (objectEntries (groupCards cardValue h))
      in handValueOf h (fst r) (fst (snd r)) * fst (snd r) + fst (snd (snd r)))"
  by (simp add: scoreOf_def scoreHand_def Let_def case_prod_beta length_groupCards sameSuit_def)

lemma scoreOf_cong:
  assumes "length h1 = length h2"
    and "sameSuit h1 = sameSuit h2"
    and "straightType (map cardValue h1) = straightType (map cardValue h2)"
    and "map groupStats (objectEntries (groupCards cardValue h1))
           = map groupStats (objectEntries (groupCards cardValue h2))"
    and "sum_list (map highvalue h1) = sum_list (map highvalue h2)"
    and "sum_list (map cardValue h1) = sum_list (map cardValue h2)"
    and "highvalue ` set h1 = highvalue ` set h2"
  shows "scoreOf h1 = scoreOf h2"
proof -
  have r: "rankHand h1 f sv (objectEntries (groupCards cardValue h1))
         = rankHand h2 f sv (objectEntries (groupCards cardValue h2))" for f sv
    using assms(1,4) by (rule rankHand_cong)
  have v: "handValueOf h1 b m = handValueOf h2 b m" for b m
    using assms(5,6,7) by (simp add: handValueOf_eq)
  show ?thesis
    by (simp add: scoreOf_unfold assms(1,2,3) r v)
qed

lemma sum_list_map_mset:
  "mset xs = mset ys \<Longrightarrow> sum_list (map f xs) = sum_list (map f ys)" for f :: "'a \<Rightarrow> int"
proof -
  assume "mset xs = mset ys"
  then have "sum_mset (image_mset f (mset xs)) = sum_mset (image_mset f (mset ys))"
    by simp
  then show ?thesis
    by (simp only: mset_map [symmetric] sum_mset_sum_list)
qed

lemma groupStats_mset:
  assumes "mset h1 = mset h2"
  shows "groupStats (v, filter P h1) = groupStats (v, filter P h2)"
proof -
  have m: "mset (filter P h1) = mset (filter P h2)"
    using assms by simp
  have "length (filter P h1) = length (filter P h2)"
    using m by (rule mset_eq_length)
  moreover have "sum_list (map highvalue (filter P h1)) = sum_list (map highvalue (filter P h2))"
    using m by (rule sum_list_map_mset)
  ultimately show ?thesis
    by (simp add: groupStats_def getCardSum_sum)
qed

lemma scoreOf_permutation:
  assumes "mset h1 = mset h2" and "\<forall>c\<in>set h1. isArrayIndex (cardValue c)"
  shows "scoreOf h1 = scoreOf h2"
proof (rule scoreOf_cong)
  have s: "set h1 = set h2"
    using assms(1) by (rule mset_eq_setD)
  show "length h1 = length h2"
    using assms(1) by (rule mset_eq_length)
  show "sameSuit h1 = sameSuit h2"
    by (simp add: sameSuit_def s)
  have "mset (map cardValue h1) = mset (map cardValue h2)"
    using assms(1) by simp
  then show "straightType (map cardValue h1) = straightType (map cardValue h2)"
    by (rule straightType_mset)
  have i2: "\<forall>c\<in>set h2. isArrayIndex (cardValue c)"
    using assms(2) s by simp
  show "map groupStats (objectEntries (groupCards cardValue h1))
           = map groupStats (objectEntries (groupCards cardValue h2))"
    by (simp add: valueGroups_tabulated [OF assms(2)] valueGroups_tabulated [OF i2] s o_def
          groupStats_mset [OF assms(1)])
  show "sum_list (map highvalue h1) = sum_list (map highvalue h2)"
    using assms(1) by (rule sum_list_map_mset)
  show "sum_list (map cardValue h1) = sum_list (map cardValue h2)"
    using assms(1) by (rule sum_list_map_mset)
  show "highvalue ` set h1 = highvalue ` set h2"
    by (simp add: s)
qed

lemma validHand_iff: "validHand h \<longleftrightarrow> (\<forall>c\<in>set h. validCard c)"
  by (simp add: validHand_def list_all_iff)

lemma valid_index: "validHand h \<Longrightarrow> \<forall>c\<in>set h. isArrayIndex (cardValue c)"
  by (auto simp: validHand_iff validCard_def isArrayIndex_def)

lemma valid_high: "validHand h \<Longrightarrow> map highvalue h = map highOf (map cardValue h)"
  by (induction h) (auto simp: validHand_def validCard_def)

lemma valid_groupStats:
  assumes "validHand h"
  shows "groupStats (v, filter (\<lambda>c. cardValue c = v) h)
           = (count (mset (map cardValue h)) v, int (count (mset (map cardValue h)) v) * highOf v)"
  using assms
  by (induction h)
     (auto simp: groupStats_def getCardSum_sum validHand_def validCard_def algebra_simps)

lemma scoreOf_values:
  assumes "validHand h1" "validHand h2"
    and "mset (map cardValue h1) = mset (map cardValue h2)"
    and "sameSuit h1 = sameSuit h2"
  shows "scoreOf h1 = scoreOf h2"
proof (rule scoreOf_cong)
  have s: "cardValue ` set h1 = cardValue ` set h2"
    using mset_eq_setD [OF assms(3)] by simp
  have "length (map cardValue h1) = length (map cardValue h2)"
    using assms(3) by (rule mset_eq_length)
  then show "length h1 = length h2" by simp
  show "sameSuit h1 = sameSuit h2" by fact
  show "straightType (map cardValue h1) = straightType (map cardValue h2)"
    using assms(3) by (rule straightType_mset)
  have im: "image_mset cardValue (mset h1) = image_mset cardValue (mset h2)"
    using assms(3) by simp
  show "map groupStats (objectEntries (groupCards cardValue h1))
           = map groupStats (objectEntries (groupCards cardValue h2))"
    by (simp add: valueGroups_tabulated [OF valid_index [OF assms(1)]]
          valueGroups_tabulated [OF valid_index [OF assms(2)]] s o_def
          valid_groupStats [OF assms(1)] valid_groupStats [OF assms(2)] im)
  show "sum_list (map highvalue h1) = sum_list (map highvalue h2)"
    using sum_list_map_mset [OF assms(3), of highOf]
    by (simp add: valid_high [OF assms(1)] valid_high [OF assms(2)])
  show "sum_list (map cardValue h1) = sum_list (map cardValue h2)"
    using sum_list_map_mset [OF assms(3), of "\<lambda>x. x"] by simp
  have "set (map highvalue h1) = set (map highvalue h2)"
    using s by (simp only: valid_high [OF assms(1)] valid_high [OF assms(2)] set_map)
  then show "highvalue ` set h1 = highvalue ` set h2"
    by simp
qed

subsection \<open>Five sorted ranks\<close>

lemma sorted_mset_unique:
  "sorted xs \<Longrightarrow> sorted ys \<Longrightarrow> mset xs = mset ys \<Longrightarrow> xs = ys" for xs :: "int list"
  by (metis sorted_sort_id sorted_list_of_multiset_mset)

lemma sameSuit_canon [simp]: "sameSuit (canon f a b c d e) = f"
  by (simp add: sameSuit_def canon_def mkCard_def card_insert_if)

lemma values_canon [simp]: "map cardValue (canon f a b c d e) = [a, b, c, d, e]"
  by (simp add: canon_def mkCard_def)

lemma mset5_window:
  assumes "a \<le> b" "b \<le> c" "c \<le> d" "d \<le> e"
  shows "mset [a, b, c, d, e] = mset (window k)
           \<longleftrightarrow> a = k \<and> b = k + 1 \<and> c = k + 2 \<and> d = k + 3 \<and> e = k + 4"
proof
  assume m: "mset [a, b, c, d, e] = mset (window k)"
  have "sorted [a, b, c, d, e]" using assms by simp
  moreover have "sorted (window k)" by (simp add: window_def)
  ultimately have "[a, b, c, d, e] = window k"
    using m by (rule sorted_mset_unique)
  then show "a = k \<and> b = k + 1 \<and> c = k + 2 \<and> d = k + 3 \<and> e = k + 4"
    by (simp add: window_def)
next
  assume "a = k \<and> b = k + 1 \<and> c = k + 2 \<and> d = k + 3 \<and> e = k + 4"
  then show "mset [a, b, c, d, e] = mset (window k)"
    by (simp add: window_def)
qed

lemma mset5_ace_high:
  fixes a :: int
  assumes "a \<le> b" "b \<le> c" "c \<le> d" "d \<le> e"
  shows "mset [a, b, c, d, e] = mset [10, 11, 12, 13, 1]
           \<longleftrightarrow> a = 1 \<and> b = 10 \<and> c = 11 \<and> d = 12 \<and> e = 13"
proof
  assume m: "mset [a, b, c, d, e] = mset [10, 11, 12, 13, 1]"
  have "mset [10, 11, 12, 13, 1] = mset [1, 10, 11, 12, 13 :: int]" by simp
  with m have m': "mset [a, b, c, d, e] = mset [1, 10, 11, 12, 13]" by simp
  have "sorted [a, b, c, d, e]" using assms by simp
  moreover have "sorted [1, 10, 11, 12, 13 :: int]" by simp
  ultimately have "[a, b, c, d, e] = [1, 10, 11, 12, 13]"
    using m' by (rule sorted_mset_unique)
  then show "a = 1 \<and> b = 10 \<and> c = 11 \<and> d = 12 \<and> e = 13"
    by simp
next
  assume "a = 1 \<and> b = 10 \<and> c = 11 \<and> d = 12 \<and> e = 13"
  then show "mset [a, b, c, d, e] = mset [10, 11, 12, 13, 1]"
    by simp
qed

lemma ranks_1_9: "k \<in> set [1, 2, 3, 4, 5, 6, 7, 8, 9] \<longleftrightarrow> 1 \<le> k \<and> k \<le> 9" for k :: int
  by auto

lemma straightRanks5:
  assumes "a \<le> b" "b \<le> c" "c \<le> d" "d \<le> e"
  shows "straightRanks [a, b, c, d, e]
           \<longleftrightarrow> (1 \<le> a \<and> a \<le> 9 \<and> b = a + 1 \<and> c = a + 2 \<and> d = a + 3 \<and> e = a + 4)
               \<or> (a = 1 \<and> b = 10 \<and> c = 11 \<and> d = 12 \<and> e = 13)"
proof -
  have "list_ex (\<lambda>k. mset [a, b, c, d, e] = mset (window k)) [1, 2, 3, 4, 5, 6, 7, 8, 9]
          \<longleftrightarrow> (\<exists>k. (1 \<le> k \<and> k \<le> 9) \<and> mset [a, b, c, d, e] = mset (window k))"
    unfolding list_ex_iff Bex_def ranks_1_9 ..
  also have "\<dots> \<longleftrightarrow> (1 \<le> a \<and> a \<le> 9 \<and> b = a + 1 \<and> c = a + 2 \<and> d = a + 3 \<and> e = a + 4)"
    unfolding mset5_window [OF assms] by auto
  finally show ?thesis
    unfolding straightRanks_def mset5_ace_high [OF assms] by simp
qed

lemma straightType5:
  assumes "a \<le> b" "b \<le> c" "c \<le> d" "d \<le> e"
  shows "straightType [a, b, c, d, e]
           = (if 1 \<le> a \<and> a \<le> 9 \<and> b = a + 1 \<and> c = a + 2 \<and> d = a + 3 \<and> e = a + 4 then a
              else if a = 1 \<and> b = 10 \<and> c = 11 \<and> d = 12 \<and> e = 13 then 10 else 0)"
proof (cases "1 \<le> a \<and> a \<le> 9 \<and> b = a + 1 \<and> c = a + 2 \<and> d = a + 3 \<and> e = a + 4")
  case True
  then have "mset [a, b, c, d, e] = mset (window a)"
    by (simp add: window_def)
  with True show ?thesis
    by (simp add: straightType_window)
next
  case nw: False
  show ?thesis
  proof (cases "a = 1 \<and> b = 10 \<and> c = 11 \<and> d = 12 \<and> e = 13")
    case True
    then have "mset [a, b, c, d, e] = mset [10, 11, 12, 13, 1]"
      by simp
    then have "straightType [a, b, c, d, e] = 10"
      by (rule straightType_ace_high)
    with True show ?thesis by simp
  next
    case False
    have "straightType [a, b, c, d, e] = 0"
    proof (rule straightType_other)
      show "\<forall>k. 1 \<le> k \<and> k \<le> 9 \<longrightarrow> mset [a, b, c, d, e] \<noteq> mset (window k)"
        using nw unfolding mset5_window [OF assms] by auto
      show "mset [a, b, c, d, e] \<noteq> mset [10, 11, 12, 13, 1]"
        using False unfolding mset5_ace_high [OF assms] by auto
    qed
    with nw False show ?thesis by simp
  qed
qed

subsection \<open>Scores are not negative\<close>

lemma score_scoreHand: "score (scoreHand ho) = scoreOf (hand ho)"
  by (simp add: scoreOf_def scoreHand_def Let_def case_prod_beta)

lemma adjustLoop_range:
  assumes "\<forall>g\<in>set vg. 0 \<le> getCardSum (snd g) \<and> getCardSum (snd g) \<le> T" "1 \<le> m"
    and "- (T * (m - 1)) \<le> a" "a \<le> 0"
  shows "- (T * (m - 1)) \<le> adjustLoop n m vg a \<and> adjustLoop n m vg a \<le> 0"
  using assms
proof (induction vg arbitrary: a)
  case Nil
  then show ?case by (simp add: adjustLoop_def)
next
  case (Cons g vg)
  let ?S = "getCardSum (snd g)"
  let ?a' = "if length (snd g) \<noteq> n then (?S * m * (-1)) + ?S else a"
  have S: "0 \<le> ?S" "?S \<le> T" using Cons.prems(1) by simp_all
  have e: "(?S * m * (-1)) + ?S = - (?S * (m - 1))"
    by (simp add: algebra_simps)
  have "?S * (m - 1) \<le> T * (m - 1)"
    using S Cons.prems(2) by (simp add: mult_right_mono)
  moreover have "0 \<le> ?S * (m - 1)"
    using S Cons.prems(2) by simp
  ultimately have a': "- (T * (m - 1)) \<le> ?a'" "?a' \<le> 0"
    using Cons.prems(3,4) unfolding e by simp_all
  have "adjustLoop n m (g # vg) a = adjustLoop n m vg ?a'"
    by (simp add: adjustLoop_def)
  moreover have "- (T * (m - 1)) \<le> adjustLoop n m vg ?a' \<and> adjustLoop n m vg ?a' \<le> 0"
    using Cons.prems(1,2) a' by (intro Cons.IH) simp_all
  ultimately show ?case by simp
qed

lemma two_groups_length:
  "v1 \<noteq> v2 \<Longrightarrow>
   length (filter (\<lambda>c. f c = v1) h) + length (filter (\<lambda>c. f c = v2) h) \<le> length h"
  by (induction h) auto

lemma sum_high_filter:
  "\<forall>c\<in>set h. 0 \<le> highvalue c \<Longrightarrow>
     0 \<le> sum_list (map highvalue (filter P h))
     \<and> sum_list (map highvalue (filter P h)) \<le> sum_list (map highvalue h)"
  by (induction h) auto

lemma sum_list_map_nonneg:
  "\<forall>c\<in>set h. 0 \<le> f c \<Longrightarrow> 0 \<le> sum_list (map f h)" for f :: "'a \<Rightarrow> int"
  by (induction h) auto

lemma rankHand_shape:
  assumes "rankHand cs f sv vg = (aH, m, adj, nm)"
  shows "(adj = 0 \<and> 1 \<le> m)
       \<or> (aH \<and> m = 15 \<and> adj = adjustLoop 2 15 vg 0)
       \<or> (aH \<and> m = 100 \<and> adj = adjustLoop 2 100 vg 0)
       \<or> (aH \<and> m = 1000 \<and> adj = adjustLoop 3 1000 vg 0)
       \<or> (aH \<and> m = 10000000 \<and> adj = adjustLoop 4 10000000 vg 0)
       \<or> (length vg = 2 \<and> (length (snd (vg ! 0)) = 4 \<or> length (snd (vg ! 1)) = 4)
            \<and> (length (snd (vg ! 0)) = 3 \<or> length (snd (vg ! 1)) = 3))"
  using assms unfolding rankHand_def Let_def
  by (simp split: if_splits)

lemma scoreOf_nonneg:
  assumes v: "validHand h" and len: "length h \<le> 5"
  shows "0 \<le> scoreOf h"
proof -
  let ?T = "sum_list (map highvalue h)"
  let ?vg = "objectEntries (groupCards cardValue h)"
  let ?ks = "sorted_list_of_set (cardValue ` set h)"
  have hv: "\<forall>c\<in>set h. 0 \<le> highvalue c" and cv: "\<forall>c\<in>set h. 0 \<le> cardValue c"
    using v by (auto simp: validHand_iff validCard_def highOf_def)
  have T: "0 \<le> ?T" using hv by (rule sum_list_map_nonneg)
  have L: "0 \<le> sum_list (map cardValue h)" using cv by (rule sum_list_map_nonneg)
  have M: "0 \<le> Max (insert 0 (highvalue ` set h))" by simp
  have vg: "?vg = map (\<lambda>k. (k, filter (\<lambda>c. cardValue c = k) h)) ?ks"
    using valid_index [OF v] by (rule valueGroups_tabulated)
  have G: "\<forall>g\<in>set ?vg. 0 \<le> getCardSum (snd g) \<and> getCardSum (snd g) \<le> ?T"
    unfolding vg using sum_high_filter [OF hv] by (auto simp: getCardSum_sum)
  have A: "- (?T * (m - 1)) \<le> adjustLoop n m ?vg 0 \<and> adjustLoop n m ?vg 0 \<le> 0"
    if "1 \<le> m" for n m
    using G that by (rule adjustLoop_range) (use T that in simp_all)
  have two: "\<not> (length (snd (?vg ! i)) = 4 \<and> length (snd (?vg ! j)) = 3)"
    if "length ?vg = 2" "i < 2" "j < 2" "i \<noteq> j" for i j
  proof -
    have l2: "length ?ks = 2" using that(1) unfolding vg by simp
    have d: "distinct ?ks" by simp
    have "?ks ! i \<noteq> ?ks ! j"
      using d l2 that(2,3,4) by (simp add: nth_eq_iff_index_eq)
    then have "length (filter (\<lambda>c. cardValue c = ?ks ! i) h)
             + length (filter (\<lambda>c. cardValue c = ?ks ! j) h) \<le> length h"
      by (rule two_groups_length)
    then show ?thesis
      unfolding vg using l2 that(2,3) len by simp
  qed
  obtain aH m adj nm where r: "rankHand h (sameSuit h \<and> length h = 5)
      (straightType (map cardValue h)) ?vg = (aH, m, adj, nm)"
    by (metis prod_cases4)
  have not_both: "\<not> (length ?vg = 2 \<and> (length (snd (?vg ! 0)) = 4 \<or> length (snd (?vg ! 1)) = 4)
            \<and> (length (snd (?vg ! 0)) = 3 \<or> length (snd (?vg ! 1)) = 3))"
  proof
    assume b: "length ?vg = 2 \<and> (length (snd (?vg ! 0)) = 4 \<or> length (snd (?vg ! 1)) = 4)
            \<and> (length (snd (?vg ! 0)) = 3 \<or> length (snd (?vg ! 1)) = 3)"
    then have "length (snd (?vg ! 0)) = 4 \<and> length (snd (?vg ! 1)) = 3
             \<or> length (snd (?vg ! 1)) = 4 \<and> length (snd (?vg ! 0)) = 3"
      by auto
    with b two [of 0 1] two [of 1 0] show False
      by auto
  qed
  have "(adj = 0 \<and> 1 \<le> m)
       \<or> (aH \<and> m = 15 \<and> adj = adjustLoop 2 15 ?vg 0)
       \<or> (aH \<and> m = 100 \<and> adj = adjustLoop 2 100 ?vg 0)
       \<or> (aH \<and> m = 1000 \<and> adj = adjustLoop 3 1000 ?vg 0)
       \<or> (aH \<and> m = 10000000 \<and> adj = adjustLoop 4 10000000 ?vg 0)"
    using rankHand_shape [OF r] not_both by blast
  then have key: "1 \<le> m \<and> (adj = 0 \<or> (aH \<and> 1 < m \<and> - (?T * (m - 1)) \<le> adj))"
  proof (elim disjE conjE)
    assume "adj = 0" "1 \<le> m"
    then show ?thesis by simp
  next
    assume "aH" "m = 15" "adj = adjustLoop 2 15 ?vg 0"
    with A [of 15 2] show ?thesis by simp
  next
    assume "aH" "m = 100" "adj = adjustLoop 2 100 ?vg 0"
    with A [of 100 2] show ?thesis by simp
  next
    assume "aH" "m = 1000" "adj = adjustLoop 3 1000 ?vg 0"
    with A [of 1000 3] show ?thesis by simp
  next
    assume "aH" "m = 10000000" "adj = adjustLoop 4 10000000 ?vg 0"
    with A [of 10000000 4] show ?thesis by simp
  qed
  have "0 \<le> handValueOf h aH m * m + adj"
  proof (cases "adj = 0")
    case True
    have "0 \<le> handValueOf h aH m"
      using T L M by (simp add: handValueOf_eq)
    with key True show ?thesis by simp
  next
    case False
    with key have k: "aH" "1 < m" "- (?T * (m - 1)) \<le> adj" by auto
    then have "handValueOf h aH m * m + adj = ?T * m + adj"
      by (simp add: handValueOf_eq)
    moreover have "?T * m - ?T * (m - 1) \<le> ?T * m + adj"
      using k(3) by linarith
    moreover have "?T * m - ?T * (m - 1) = ?T"
      by (simp add: algebra_simps)
    ultimately show ?thesis using T by linarith
  qed
  then show ?thesis
    by (simp add: scoreOf_unfold r)
qed

subsection \<open>The hand that stands for its ranks\<close>

lemma length_canon [simp]: "length (canon f a b c d e) = 5"
  by (simp add: canon_def)

lemma sum_high_canon [simp]:
  "sum_list (map highvalue (canon f a b c d e)) = highOf a + highOf b + highOf c + highOf d + highOf e"
  by (simp add: canon_def mkCard_def)

lemma sum_value_canon [simp]:
  "sum_list (map cardValue (canon f a b c d e)) = a + b + c + d + e"
  by (simp add: canon_def mkCard_def)

lemma max_high_canon [simp]:
  "Max (insert 0 (highvalue ` set (canon f a b c d e)))
     = max 0 (max (highOf a) (max (highOf b) (max (highOf c) (max (highOf d) (highOf e)))))"
  by (simp add: canon_def mkCard_def)

lemma highvalue_mkCard [simp]: "highvalue (mkCard s v) = highOf v"
  by (simp add: mkCard_def)

lemma cardValue_mkCard [simp]: "cardValue (mkCard s v) = v"
  by (simp add: mkCard_def)

lemma groups_canon:
  "groupCards cardValue (canon f a b c d e) =
     pushGroup e (mkCard ''s'' e) (pushGroup d (mkCard ''s'' d) (pushGroup c (mkCard ''s'' c)
       (pushGroup b (mkCard ''s'' b) [(a, [mkCard (if f then ''s'' else ''t'') a])])))"
  by (simp add: groupCards_def canon_def)

lemma entries_index:
  "list_all (\<lambda>g. 1 \<le> fst g \<and> fst g \<le> 13) gs \<Longrightarrow> objectEntries gs = sort_key fst gs"
proof -
  assume a: "list_all (\<lambda>g. 1 \<le> fst g \<and> fst g \<le> 13) gs"
  then have "filter (\<lambda>g. isArrayIndex (fst g)) gs = gs"
    by (auto simp: list_all_iff isArrayIndex_def filter_id_conv)
  moreover have "filter (\<lambda>g. \<not> isArrayIndex (fst g)) gs = []"
    using a by (auto simp: list_all_iff isArrayIndex_def filter_empty_conv)
  ultimately show ?thesis
    by (simp add: objectEntries_def)
qed

lemma ranks_1112:
  assumes "1 \<le> p" "p < q" "q < r" "r < s" "s \<le> 13"
  shows "classOf (canon False p q r s s) = Some OnePair
         \<and> classFloor OnePair \<le> scoreOf (canon False p q r s s)
         \<and> scoreOf (canon False p q r s s) \<le> classCeil OnePair"
proof -
  have ne: "p \<noteq> q" "p \<noteq> r" "p \<noteq> s" "q \<noteq> p" "q \<noteq> r" "q \<noteq> s" "r \<noteq> p" "r \<noteq> q" "r \<noteq> s" "s \<noteq> p" "s \<noteq> q" "s \<noteq> r"
    using assms by simp_all
  have h: "highOf q = q" "highOf r = r" "highOf s = s"
    using assms by (simp_all add: highOf_def)
  have h1: "(p = 1 \<and> highOf p = 14) \<or> (2 \<le> p \<and> highOf p = p)"
    using assms(1) by (auto simp: highOf_def)
  have vg: "objectEntries (groupCards cardValue (canon False p q r s s)) = [(p, [mkCard ''t'' p]), (q, [mkCard ''s'' q]), (r, [mkCard ''s'' r]), (s, [mkCard ''s'' s, mkCard ''s'' s])]"
    using assms ne by (simp add: groups_canon entries_index)
  have st: "straightType [p, q, r, s, s] = 0"
    by (subst straightType5) (use assms in simp_all)
  have ns: "\<not> straightRanks [p, q, r, s, s]"
    by (subst straightRanks5) (use assms in simp_all)
  have cnt: "rankCounts [p, q, r, s, s] = [1, 1, 1, 2]"
    using ne by (simp add: rankCounts_def)
  have cl: "classOf (canon False p q r s s) = Some OnePair"
    by (simp add: classOf_def cnt ns Let_def)
  have sc: "scoreOf (canon False p q r s s) = (1 * highOf p + 1 * highOf q + 1 * highOf r + 2 * highOf s) * 15 + ((1 * highOf r) * 15 * (-1) + (1 * highOf r))"
    by (simp add: scoreOf_unfold vg st rankHand_def Let_def handValueOf_eq adjustLoop_def
          getCardSum_sum)
  have b: "classFloor OnePair \<le> (1 * highOf p + 1 * highOf q + 1 * highOf r + 2 * highOf s) * 15 + ((1 * highOf r) * 15 * (-1) + (1 * highOf r)) \<and> (1 * highOf p + 1 * highOf q + 1 * highOf r + 2 * highOf s) * 15 + ((1 * highOf r) * 15 * (-1) + (1 * highOf r)) \<le> classCeil OnePair"
    using h1 h assms by (elim disjE conjE) simp_all
  show ?thesis
    unfolding cl sc using b by simp
qed

lemma ranks_1121:
  assumes "1 \<le> p" "p < q" "q < r" "r < s" "s \<le> 13"
  shows "classOf (canon False p q r r s) = Some OnePair
         \<and> classFloor OnePair \<le> scoreOf (canon False p q r r s)
         \<and> scoreOf (canon False p q r r s) \<le> classCeil OnePair"
proof -
  have ne: "p \<noteq> q" "p \<noteq> r" "p \<noteq> s" "q \<noteq> p" "q \<noteq> r" "q \<noteq> s" "r \<noteq> p" "r \<noteq> q" "r \<noteq> s" "s \<noteq> p" "s \<noteq> q" "s \<noteq> r"
    using assms by simp_all
  have h: "highOf q = q" "highOf r = r" "highOf s = s"
    using assms by (simp_all add: highOf_def)
  have h1: "(p = 1 \<and> highOf p = 14) \<or> (2 \<le> p \<and> highOf p = p)"
    using assms(1) by (auto simp: highOf_def)
  have vg: "objectEntries (groupCards cardValue (canon False p q r r s)) = [(p, [mkCard ''t'' p]), (q, [mkCard ''s'' q]), (r, [mkCard ''s'' r, mkCard ''s'' r]), (s, [mkCard ''s'' s])]"
    using assms ne by (simp add: groups_canon entries_index)
  have st: "straightType [p, q, r, r, s] = 0"
    by (subst straightType5) (use assms in simp_all)
  have ns: "\<not> straightRanks [p, q, r, r, s]"
    by (subst straightRanks5) (use assms in simp_all)
  have cnt: "rankCounts [p, q, r, r, s] = [1, 1, 1, 2]"
    using ne by (simp add: rankCounts_def)
  have cl: "classOf (canon False p q r r s) = Some OnePair"
    by (simp add: classOf_def cnt ns Let_def)
  have sc: "scoreOf (canon False p q r r s) = (1 * highOf p + 1 * highOf q + 2 * highOf r + 1 * highOf s) * 15 + ((1 * highOf s) * 15 * (-1) + (1 * highOf s))"
    by (simp add: scoreOf_unfold vg st rankHand_def Let_def handValueOf_eq adjustLoop_def
          getCardSum_sum)
  have b: "classFloor OnePair \<le> (1 * highOf p + 1 * highOf q + 2 * highOf r + 1 * highOf s) * 15 + ((1 * highOf s) * 15 * (-1) + (1 * highOf s)) \<and> (1 * highOf p + 1 * highOf q + 2 * highOf r + 1 * highOf s) * 15 + ((1 * highOf s) * 15 * (-1) + (1 * highOf s)) \<le> classCeil OnePair"
    using h1 h assms by (elim disjE conjE) simp_all
  show ?thesis
    unfolding cl sc using b by simp
qed

lemma ranks_113:
  assumes "1 \<le> p" "p < q" "q < r" "r \<le> 13"
  shows "classOf (canon False p q r r r) = Some ThreeOfAKind
         \<and> classFloor ThreeOfAKind \<le> scoreOf (canon False p q r r r)
         \<and> scoreOf (canon False p q r r r) \<le> classCeil ThreeOfAKind"
proof -
  have ne: "p \<noteq> q" "p \<noteq> r" "q \<noteq> p" "q \<noteq> r" "r \<noteq> p" "r \<noteq> q"
    using assms by simp_all
  have h: "highOf q = q" "highOf r = r"
    using assms by (simp_all add: highOf_def)
  have h1: "(p = 1 \<and> highOf p = 14) \<or> (2 \<le> p \<and> highOf p = p)"
    using assms(1) by (auto simp: highOf_def)
  have vg: "objectEntries (groupCards cardValue (canon False p q r r r)) = [(p, [mkCard ''t'' p]), (q, [mkCard ''s'' q]), (r, [mkCard ''s'' r, mkCard ''s'' r, mkCard ''s'' r])]"
    using assms ne by (simp add: groups_canon entries_index)
  have st: "straightType [p, q, r, r, r] = 0"
    by (subst straightType5) (use assms in simp_all)
  have ns: "\<not> straightRanks [p, q, r, r, r]"
    by (subst straightRanks5) (use assms in simp_all)
  have cnt: "rankCounts [p, q, r, r, r] = [1, 1, 3]"
    using ne by (simp add: rankCounts_def)
  have cl: "classOf (canon False p q r r r) = Some ThreeOfAKind"
    by (simp add: classOf_def cnt ns Let_def)
  have sc: "scoreOf (canon False p q r r r) = (1 * highOf p + 1 * highOf q + 3 * highOf r) * 1000 + ((1 * highOf q) * 1000 * (-1) + (1 * highOf q))"
    by (simp add: scoreOf_unfold vg st rankHand_def Let_def handValueOf_eq adjustLoop_def
          getCardSum_sum)
  have b: "classFloor ThreeOfAKind \<le> (1 * highOf p + 1 * highOf q + 3 * highOf r) * 1000 + ((1 * highOf q) * 1000 * (-1) + (1 * highOf q)) \<and> (1 * highOf p + 1 * highOf q + 3 * highOf r) * 1000 + ((1 * highOf q) * 1000 * (-1) + (1 * highOf q)) \<le> classCeil ThreeOfAKind"
    using h1 h assms by (elim disjE conjE) simp_all
  show ?thesis
    unfolding cl sc using b by simp
qed

lemma ranks_1211:
  assumes "1 \<le> p" "p < q" "q < r" "r < s" "s \<le> 13"
  shows "classOf (canon False p q q r s) = Some OnePair
         \<and> classFloor OnePair \<le> scoreOf (canon False p q q r s)
         \<and> scoreOf (canon False p q q r s) \<le> classCeil OnePair"
proof -
  have ne: "p \<noteq> q" "p \<noteq> r" "p \<noteq> s" "q \<noteq> p" "q \<noteq> r" "q \<noteq> s" "r \<noteq> p" "r \<noteq> q" "r \<noteq> s" "s \<noteq> p" "s \<noteq> q" "s \<noteq> r"
    using assms by simp_all
  have h: "highOf q = q" "highOf r = r" "highOf s = s"
    using assms by (simp_all add: highOf_def)
  have h1: "(p = 1 \<and> highOf p = 14) \<or> (2 \<le> p \<and> highOf p = p)"
    using assms(1) by (auto simp: highOf_def)
  have vg: "objectEntries (groupCards cardValue (canon False p q q r s)) = [(p, [mkCard ''t'' p]), (q, [mkCard ''s'' q, mkCard ''s'' q]), (r, [mkCard ''s'' r]), (s, [mkCard ''s'' s])]"
    using assms ne by (simp add: groups_canon entries_index)
  have st: "straightType [p, q, q, r, s] = 0"
    by (subst straightType5) (use assms in simp_all)
  have ns: "\<not> straightRanks [p, q, q, r, s]"
    by (subst straightRanks5) (use assms in simp_all)
  have cnt: "rankCounts [p, q, q, r, s] = [1, 1, 1, 2]"
    using ne by (simp add: rankCounts_def)
  have cl: "classOf (canon False p q q r s) = Some OnePair"
    by (simp add: classOf_def cnt ns Let_def)
  have sc: "scoreOf (canon False p q q r s) = (1 * highOf p + 2 * highOf q + 1 * highOf r + 1 * highOf s) * 15 + ((1 * highOf s) * 15 * (-1) + (1 * highOf s))"
    by (simp add: scoreOf_unfold vg st rankHand_def Let_def handValueOf_eq adjustLoop_def
          getCardSum_sum)
  have b: "classFloor OnePair \<le> (1 * highOf p + 2 * highOf q + 1 * highOf r + 1 * highOf s) * 15 + ((1 * highOf s) * 15 * (-1) + (1 * highOf s)) \<and> (1 * highOf p + 2 * highOf q + 1 * highOf r + 1 * highOf s) * 15 + ((1 * highOf s) * 15 * (-1) + (1 * highOf s)) \<le> classCeil OnePair"
    using h1 h assms by (elim disjE conjE) simp_all
  show ?thesis
    unfolding cl sc using b by simp
qed

lemma ranks_122:
  assumes "1 \<le> p" "p < q" "q < r" "r \<le> 13"
  shows "classOf (canon False p q q r r) = Some TwoPair
         \<and> classFloor TwoPair \<le> scoreOf (canon False p q q r r)
         \<and> scoreOf (canon False p q q r r) \<le> classCeil TwoPair"
proof -
  have ne: "p \<noteq> q" "p \<noteq> r" "q \<noteq> p" "q \<noteq> r" "r \<noteq> p" "r \<noteq> q"
    using assms by simp_all
  have h: "highOf q = q" "highOf r = r"
    using assms by (simp_all add: highOf_def)
  have h1: "(p = 1 \<and> highOf p = 14) \<or> (2 \<le> p \<and> highOf p = p)"
    using assms(1) by (auto simp: highOf_def)
  have vg: "objectEntries (groupCards cardValue (canon False p q q r r)) = [(p, [mkCard ''t'' p]), (q, [mkCard ''s'' q, mkCard ''s'' q]), (r, [mkCard ''s'' r, mkCard ''s'' r])]"
    using assms ne by (simp add: groups_canon entries_index)
  have st: "straightType [p, q, q, r, r] = 0"
    by (subst straightType5) (use assms in simp_all)
  have ns: "\<not> straightRanks [p, q, q, r, r]"
    by (subst straightRanks5) (use assms in simp_all)
  have cnt: "rankCounts [p, q, q, r, r] = [1, 2, 2]"
    using ne by (simp add: rankCounts_def)
  have cl: "classOf (canon False p q q r r) = Some TwoPair"
    by (simp add: classOf_def cnt ns Let_def)
  have sc: "scoreOf (canon False p q q r r) = (1 * highOf p + 2 * highOf q + 2 * highOf r) * 100 + ((1 * highOf p) * 100 * (-1) + (1 * highOf p))"
    by (simp add: scoreOf_unfold vg st rankHand_def Let_def handValueOf_eq adjustLoop_def
          getCardSum_sum)
  have b: "classFloor TwoPair \<le> (1 * highOf p + 2 * highOf q + 2 * highOf r) * 100 + ((1 * highOf p) * 100 * (-1) + (1 * highOf p)) \<and> (1 * highOf p + 2 * highOf q + 2 * highOf r) * 100 + ((1 * highOf p) * 100 * (-1) + (1 * highOf p)) \<le> classCeil TwoPair"
    using h1 h assms by (elim disjE conjE) simp_all
  show ?thesis
    unfolding cl sc using b by simp
qed

lemma ranks_131:
  assumes "1 \<le> p" "p < q" "q < r" "r \<le> 13"
  shows "classOf (canon False p q q q r) = Some ThreeOfAKind
         \<and> classFloor ThreeOfAKind \<le> scoreOf (canon False p q q q r)
         \<and> scoreOf (canon False p q q q r) \<le> classCeil ThreeOfAKind"
proof -
  have ne: "p \<noteq> q" "p \<noteq> r" "q \<noteq> p" "q \<noteq> r" "r \<noteq> p" "r \<noteq> q"
    using assms by simp_all
  have h: "highOf q = q" "highOf r = r"
    using assms by (simp_all add: highOf_def)
  have h1: "(p = 1 \<and> highOf p = 14) \<or> (2 \<le> p \<and> highOf p = p)"
    using assms(1) by (auto simp: highOf_def)
  have vg: "objectEntries (groupCards cardValue (canon False p q q q r)) = [(p, [mkCard ''t'' p]), (q, [mkCard ''s'' q, mkCard ''s'' q, mkCard ''s'' q]), (r, [mkCard ''s'' r])]"
    using assms ne by (simp add: groups_canon entries_index)
  have st: "straightType [p, q, q, q, r] = 0"
    by (subst straightType5) (use assms in simp_all)
  have ns: "\<not> straightRanks [p, q, q, q, r]"
    by (subst straightRanks5) (use assms in simp_all)
  have cnt: "rankCounts [p, q, q, q, r] = [1, 1, 3]"
    using ne by (simp add: rankCounts_def)
  have cl: "classOf (canon False p q q q r) = Some ThreeOfAKind"
    by (simp add: classOf_def cnt ns Let_def)
  have sc: "scoreOf (canon False p q q q r) = (1 * highOf p + 3 * highOf q + 1 * highOf r) * 1000 + ((1 * highOf r) * 1000 * (-1) + (1 * highOf r))"
    by (simp add: scoreOf_unfold vg st rankHand_def Let_def handValueOf_eq adjustLoop_def
          getCardSum_sum)
  have b: "classFloor ThreeOfAKind \<le> (1 * highOf p + 3 * highOf q + 1 * highOf r) * 1000 + ((1 * highOf r) * 1000 * (-1) + (1 * highOf r)) \<and> (1 * highOf p + 3 * highOf q + 1 * highOf r) * 1000 + ((1 * highOf r) * 1000 * (-1) + (1 * highOf r)) \<le> classCeil ThreeOfAKind"
    using h1 h assms by (elim disjE conjE) simp_all
  show ?thesis
    unfolding cl sc using b by simp
qed

lemma ranks_14:
  assumes "1 \<le> p" "p < q" "q \<le> 13"
  shows "classOf (canon False p q q q q) = Some FourOfAKind
         \<and> classFloor FourOfAKind \<le> scoreOf (canon False p q q q q)
         \<and> scoreOf (canon False p q q q q) \<le> classCeil FourOfAKind"
proof -
  have ne: "p \<noteq> q" "q \<noteq> p"
    using assms by simp_all
  have h: "highOf q = q"
    using assms by (simp_all add: highOf_def)
  have h1: "(p = 1 \<and> highOf p = 14) \<or> (2 \<le> p \<and> highOf p = p)"
    using assms(1) by (auto simp: highOf_def)
  have vg: "objectEntries (groupCards cardValue (canon False p q q q q)) = [(p, [mkCard ''t'' p]), (q, [mkCard ''s'' q, mkCard ''s'' q, mkCard ''s'' q, mkCard ''s'' q])]"
    using assms ne by (simp add: groups_canon entries_index)
  have st: "straightType [p, q, q, q, q] = 0"
    by (subst straightType5) (use assms in simp_all)
  have ns: "\<not> straightRanks [p, q, q, q, q]"
    by (subst straightRanks5) (use assms in simp_all)
  have cnt: "rankCounts [p, q, q, q, q] = [1, 4]"
    using ne by (simp add: rankCounts_def)
  have cl: "classOf (canon False p q q q q) = Some FourOfAKind"
    by (simp add: classOf_def cnt ns Let_def)
  have sc: "scoreOf (canon False p q q q q) = (1 * highOf p + 4 * highOf q) * 10000000 + ((1 * highOf p) * 10000000 * (-1) + (1 * highOf p))"
    by (simp add: scoreOf_unfold vg st rankHand_def Let_def handValueOf_eq adjustLoop_def
          getCardSum_sum)
  have b: "classFloor FourOfAKind \<le> (1 * highOf p + 4 * highOf q) * 10000000 + ((1 * highOf p) * 10000000 * (-1) + (1 * highOf p)) \<and> (1 * highOf p + 4 * highOf q) * 10000000 + ((1 * highOf p) * 10000000 * (-1) + (1 * highOf p)) \<le> classCeil FourOfAKind"
    using h1 h assms by (elim disjE conjE) simp_all
  show ?thesis
    unfolding cl sc using b by simp
qed

lemma ranks_2111:
  assumes "1 \<le> p" "p < q" "q < r" "r < s" "s \<le> 13"
  shows "classOf (canon False p p q r s) = Some OnePair
         \<and> classFloor OnePair \<le> scoreOf (canon False p p q r s)
         \<and> scoreOf (canon False p p q r s) \<le> classCeil OnePair"
proof -
  have ne: "p \<noteq> q" "p \<noteq> r" "p \<noteq> s" "q \<noteq> p" "q \<noteq> r" "q \<noteq> s" "r \<noteq> p" "r \<noteq> q" "r \<noteq> s" "s \<noteq> p" "s \<noteq> q" "s \<noteq> r"
    using assms by simp_all
  have h: "highOf q = q" "highOf r = r" "highOf s = s"
    using assms by (simp_all add: highOf_def)
  have h1: "(p = 1 \<and> highOf p = 14) \<or> (2 \<le> p \<and> highOf p = p)"
    using assms(1) by (auto simp: highOf_def)
  have vg: "objectEntries (groupCards cardValue (canon False p p q r s)) = [(p, [mkCard ''t'' p, mkCard ''s'' p]), (q, [mkCard ''s'' q]), (r, [mkCard ''s'' r]), (s, [mkCard ''s'' s])]"
    using assms ne by (simp add: groups_canon entries_index)
  have st: "straightType [p, p, q, r, s] = 0"
    by (subst straightType5) (use assms in simp_all)
  have ns: "\<not> straightRanks [p, p, q, r, s]"
    by (subst straightRanks5) (use assms in simp_all)
  have cnt: "rankCounts [p, p, q, r, s] = [1, 1, 1, 2]"
    using ne by (simp add: rankCounts_def)
  have cl: "classOf (canon False p p q r s) = Some OnePair"
    by (simp add: classOf_def cnt ns Let_def)
  have sc: "scoreOf (canon False p p q r s) = (2 * highOf p + 1 * highOf q + 1 * highOf r + 1 * highOf s) * 15 + ((1 * highOf s) * 15 * (-1) + (1 * highOf s))"
    by (simp add: scoreOf_unfold vg st rankHand_def Let_def handValueOf_eq adjustLoop_def
          getCardSum_sum)
  have b: "classFloor OnePair \<le> (2 * highOf p + 1 * highOf q + 1 * highOf r + 1 * highOf s) * 15 + ((1 * highOf s) * 15 * (-1) + (1 * highOf s)) \<and> (2 * highOf p + 1 * highOf q + 1 * highOf r + 1 * highOf s) * 15 + ((1 * highOf s) * 15 * (-1) + (1 * highOf s)) \<le> classCeil OnePair"
    using h1 h assms by (elim disjE conjE) simp_all
  show ?thesis
    unfolding cl sc using b by simp
qed

lemma ranks_212:
  assumes "1 \<le> p" "p < q" "q < r" "r \<le> 13"
  shows "classOf (canon False p p q r r) = Some TwoPair
         \<and> classFloor TwoPair \<le> scoreOf (canon False p p q r r)
         \<and> scoreOf (canon False p p q r r) \<le> classCeil TwoPair"
proof -
  have ne: "p \<noteq> q" "p \<noteq> r" "q \<noteq> p" "q \<noteq> r" "r \<noteq> p" "r \<noteq> q"
    using assms by simp_all
  have h: "highOf q = q" "highOf r = r"
    using assms by (simp_all add: highOf_def)
  have h1: "(p = 1 \<and> highOf p = 14) \<or> (2 \<le> p \<and> highOf p = p)"
    using assms(1) by (auto simp: highOf_def)
  have vg: "objectEntries (groupCards cardValue (canon False p p q r r)) = [(p, [mkCard ''t'' p, mkCard ''s'' p]), (q, [mkCard ''s'' q]), (r, [mkCard ''s'' r, mkCard ''s'' r])]"
    using assms ne by (simp add: groups_canon entries_index)
  have st: "straightType [p, p, q, r, r] = 0"
    by (subst straightType5) (use assms in simp_all)
  have ns: "\<not> straightRanks [p, p, q, r, r]"
    by (subst straightRanks5) (use assms in simp_all)
  have cnt: "rankCounts [p, p, q, r, r] = [1, 2, 2]"
    using ne by (simp add: rankCounts_def)
  have cl: "classOf (canon False p p q r r) = Some TwoPair"
    by (simp add: classOf_def cnt ns Let_def)
  have sc: "scoreOf (canon False p p q r r) = (2 * highOf p + 1 * highOf q + 2 * highOf r) * 100 + ((1 * highOf q) * 100 * (-1) + (1 * highOf q))"
    by (simp add: scoreOf_unfold vg st rankHand_def Let_def handValueOf_eq adjustLoop_def
          getCardSum_sum)
  have b: "classFloor TwoPair \<le> (2 * highOf p + 1 * highOf q + 2 * highOf r) * 100 + ((1 * highOf q) * 100 * (-1) + (1 * highOf q)) \<and> (2 * highOf p + 1 * highOf q + 2 * highOf r) * 100 + ((1 * highOf q) * 100 * (-1) + (1 * highOf q)) \<le> classCeil TwoPair"
    using h1 h assms by (elim disjE conjE) simp_all
  show ?thesis
    unfolding cl sc using b by simp
qed

lemma ranks_221:
  assumes "1 \<le> p" "p < q" "q < r" "r \<le> 13"
  shows "classOf (canon False p p q q r) = Some TwoPair
         \<and> classFloor TwoPair \<le> scoreOf (canon False p p q q r)
         \<and> scoreOf (canon False p p q q r) \<le> classCeil TwoPair"
proof -
  have ne: "p \<noteq> q" "p \<noteq> r" "q \<noteq> p" "q \<noteq> r" "r \<noteq> p" "r \<noteq> q"
    using assms by simp_all
  have h: "highOf q = q" "highOf r = r"
    using assms by (simp_all add: highOf_def)
  have h1: "(p = 1 \<and> highOf p = 14) \<or> (2 \<le> p \<and> highOf p = p)"
    using assms(1) by (auto simp: highOf_def)
  have vg: "objectEntries (groupCards cardValue (canon False p p q q r)) = [(p, [mkCard ''t'' p, mkCard ''s'' p]), (q, [mkCard ''s'' q, mkCard ''s'' q]), (r, [mkCard ''s'' r])]"
    using assms ne by (simp add: groups_canon entries_index)
  have st: "straightType [p, p, q, q, r] = 0"
    by (subst straightType5) (use assms in simp_all)
  have ns: "\<not> straightRanks [p, p, q, q, r]"
    by (subst straightRanks5) (use assms in simp_all)
  have cnt: "rankCounts [p, p, q, q, r] = [1, 2, 2]"
    using ne by (simp add: rankCounts_def)
  have cl: "classOf (canon False p p q q r) = Some TwoPair"
    by (simp add: classOf_def cnt ns Let_def)
  have sc: "scoreOf (canon False p p q q r) = (2 * highOf p + 2 * highOf q + 1 * highOf r) * 100 + ((1 * highOf r) * 100 * (-1) + (1 * highOf r))"
    by (simp add: scoreOf_unfold vg st rankHand_def Let_def handValueOf_eq adjustLoop_def
          getCardSum_sum)
  have b: "classFloor TwoPair \<le> (2 * highOf p + 2 * highOf q + 1 * highOf r) * 100 + ((1 * highOf r) * 100 * (-1) + (1 * highOf r)) \<and> (2 * highOf p + 2 * highOf q + 1 * highOf r) * 100 + ((1 * highOf r) * 100 * (-1) + (1 * highOf r)) \<le> classCeil TwoPair"
    using h1 h assms by (elim disjE conjE) simp_all
  show ?thesis
    unfolding cl sc using b by simp
qed

lemma ranks_23:
  assumes "1 \<le> p" "p < q" "q \<le> 13"
  shows "classOf (canon False p p q q q) = Some FullHouse
         \<and> classFloor FullHouse \<le> scoreOf (canon False p p q q q)
         \<and> scoreOf (canon False p p q q q) \<le> classCeil FullHouse"
proof -
  have ne: "p \<noteq> q" "q \<noteq> p"
    using assms by simp_all
  have h: "highOf q = q"
    using assms by (simp_all add: highOf_def)
  have h1: "(p = 1 \<and> highOf p = 14) \<or> (2 \<le> p \<and> highOf p = p)"
    using assms(1) by (auto simp: highOf_def)
  have vg: "objectEntries (groupCards cardValue (canon False p p q q q)) = [(p, [mkCard ''t'' p, mkCard ''s'' p]), (q, [mkCard ''s'' q, mkCard ''s'' q, mkCard ''s'' q])]"
    using assms ne by (simp add: groups_canon entries_index)
  have st: "straightType [p, p, q, q, q] = 0"
    by (subst straightType5) (use assms in simp_all)
  have ns: "\<not> straightRanks [p, p, q, q, q]"
    by (subst straightRanks5) (use assms in simp_all)
  have cnt: "rankCounts [p, p, q, q, q] = [2, 3]"
    using ne by (simp add: rankCounts_def)
  have cl: "classOf (canon False p p q q q) = Some FullHouse"
    by (simp add: classOf_def cnt ns Let_def)
  have sc: "scoreOf (canon False p p q q q) = (2 * highOf p + 3 * highOf q) * 1000000"
    by (simp add: scoreOf_unfold vg st rankHand_def Let_def handValueOf_eq adjustLoop_def
          getCardSum_sum)
  have b: "classFloor FullHouse \<le> (2 * highOf p + 3 * highOf q) * 1000000 \<and> (2 * highOf p + 3 * highOf q) * 1000000 \<le> classCeil FullHouse"
    using h1 h assms by (elim disjE conjE) simp_all
  show ?thesis
    unfolding cl sc using b by simp
qed

lemma ranks_311:
  assumes "1 \<le> p" "p < q" "q < r" "r \<le> 13"
  shows "classOf (canon False p p p q r) = Some ThreeOfAKind
         \<and> classFloor ThreeOfAKind \<le> scoreOf (canon False p p p q r)
         \<and> scoreOf (canon False p p p q r) \<le> classCeil ThreeOfAKind"
proof -
  have ne: "p \<noteq> q" "p \<noteq> r" "q \<noteq> p" "q \<noteq> r" "r \<noteq> p" "r \<noteq> q"
    using assms by simp_all
  have h: "highOf q = q" "highOf r = r"
    using assms by (simp_all add: highOf_def)
  have h1: "(p = 1 \<and> highOf p = 14) \<or> (2 \<le> p \<and> highOf p = p)"
    using assms(1) by (auto simp: highOf_def)
  have vg: "objectEntries (groupCards cardValue (canon False p p p q r)) = [(p, [mkCard ''t'' p, mkCard ''s'' p, mkCard ''s'' p]), (q, [mkCard ''s'' q]), (r, [mkCard ''s'' r])]"
    using assms ne by (simp add: groups_canon entries_index)
  have st: "straightType [p, p, p, q, r] = 0"
    by (subst straightType5) (use assms in simp_all)
  have ns: "\<not> straightRanks [p, p, p, q, r]"
    by (subst straightRanks5) (use assms in simp_all)
  have cnt: "rankCounts [p, p, p, q, r] = [1, 1, 3]"
    using ne by (simp add: rankCounts_def)
  have cl: "classOf (canon False p p p q r) = Some ThreeOfAKind"
    by (simp add: classOf_def cnt ns Let_def)
  have sc: "scoreOf (canon False p p p q r) = (3 * highOf p + 1 * highOf q + 1 * highOf r) * 1000 + ((1 * highOf r) * 1000 * (-1) + (1 * highOf r))"
    by (simp add: scoreOf_unfold vg st rankHand_def Let_def handValueOf_eq adjustLoop_def
          getCardSum_sum)
  have b: "classFloor ThreeOfAKind \<le> (3 * highOf p + 1 * highOf q + 1 * highOf r) * 1000 + ((1 * highOf r) * 1000 * (-1) + (1 * highOf r)) \<and> (3 * highOf p + 1 * highOf q + 1 * highOf r) * 1000 + ((1 * highOf r) * 1000 * (-1) + (1 * highOf r)) \<le> classCeil ThreeOfAKind"
    using h1 h assms by (elim disjE conjE) simp_all
  show ?thesis
    unfolding cl sc using b by simp
qed

lemma ranks_32:
  assumes "1 \<le> p" "p < q" "q \<le> 13"
  shows "classOf (canon False p p p q q) = Some FullHouse
         \<and> classFloor FullHouse \<le> scoreOf (canon False p p p q q)
         \<and> scoreOf (canon False p p p q q) \<le> classCeil FullHouse"
proof -
  have ne: "p \<noteq> q" "q \<noteq> p"
    using assms by simp_all
  have h: "highOf q = q"
    using assms by (simp_all add: highOf_def)
  have h1: "(p = 1 \<and> highOf p = 14) \<or> (2 \<le> p \<and> highOf p = p)"
    using assms(1) by (auto simp: highOf_def)
  have vg: "objectEntries (groupCards cardValue (canon False p p p q q)) = [(p, [mkCard ''t'' p, mkCard ''s'' p, mkCard ''s'' p]), (q, [mkCard ''s'' q, mkCard ''s'' q])]"
    using assms ne by (simp add: groups_canon entries_index)
  have st: "straightType [p, p, p, q, q] = 0"
    by (subst straightType5) (use assms in simp_all)
  have ns: "\<not> straightRanks [p, p, p, q, q]"
    by (subst straightRanks5) (use assms in simp_all)
  have cnt: "rankCounts [p, p, p, q, q] = [2, 3]"
    using ne by (simp add: rankCounts_def)
  have cl: "classOf (canon False p p p q q) = Some FullHouse"
    by (simp add: classOf_def cnt ns Let_def)
  have sc: "scoreOf (canon False p p p q q) = (3 * highOf p + 2 * highOf q) * 1000000"
    by (simp add: scoreOf_unfold vg st rankHand_def Let_def handValueOf_eq adjustLoop_def
          getCardSum_sum)
  have b: "classFloor FullHouse \<le> (3 * highOf p + 2 * highOf q) * 1000000 \<and> (3 * highOf p + 2 * highOf q) * 1000000 \<le> classCeil FullHouse"
    using h1 h assms by (elim disjE conjE) simp_all
  show ?thesis
    unfolding cl sc using b by simp
qed

lemma ranks_41:
  assumes "1 \<le> p" "p < q" "q \<le> 13"
  shows "classOf (canon False p p p p q) = Some FourOfAKind
         \<and> classFloor FourOfAKind \<le> scoreOf (canon False p p p p q)
         \<and> scoreOf (canon False p p p p q) \<le> classCeil FourOfAKind"
proof -
  have ne: "p \<noteq> q" "q \<noteq> p"
    using assms by simp_all
  have h: "highOf q = q"
    using assms by (simp_all add: highOf_def)
  have h1: "(p = 1 \<and> highOf p = 14) \<or> (2 \<le> p \<and> highOf p = p)"
    using assms(1) by (auto simp: highOf_def)
  have vg: "objectEntries (groupCards cardValue (canon False p p p p q)) = [(p, [mkCard ''t'' p, mkCard ''s'' p, mkCard ''s'' p, mkCard ''s'' p]), (q, [mkCard ''s'' q])]"
    using assms ne by (simp add: groups_canon entries_index)
  have st: "straightType [p, p, p, p, q] = 0"
    by (subst straightType5) (use assms in simp_all)
  have ns: "\<not> straightRanks [p, p, p, p, q]"
    by (subst straightRanks5) (use assms in simp_all)
  have cnt: "rankCounts [p, p, p, p, q] = [1, 4]"
    using ne by (simp add: rankCounts_def)
  have cl: "classOf (canon False p p p p q) = Some FourOfAKind"
    by (simp add: classOf_def cnt ns Let_def)
  have sc: "scoreOf (canon False p p p p q) = (4 * highOf p + 1 * highOf q) * 10000000 + ((1 * highOf q) * 10000000 * (-1) + (1 * highOf q))"
    by (simp add: scoreOf_unfold vg st rankHand_def Let_def handValueOf_eq adjustLoop_def
          getCardSum_sum)
  have b: "classFloor FourOfAKind \<le> (4 * highOf p + 1 * highOf q) * 10000000 + ((1 * highOf q) * 10000000 * (-1) + (1 * highOf q)) \<and> (4 * highOf p + 1 * highOf q) * 10000000 + ((1 * highOf q) * 10000000 * (-1) + (1 * highOf q)) \<le> classCeil FourOfAKind"
    using h1 h assms by (elim disjE conjE) simp_all
  show ?thesis
    unfolding cl sc using b by simp
qed

lemma ranks_5:
  assumes "1 \<le> p" "p \<le> 13"
  shows "classOf (canon False p p p p p) = None"
proof -
  have cnt: "rankCounts [p, p, p, p, p] = [5]"
    by (simp add: rankCounts_def)
  have ns: "\<not> straightRanks [p, p, p, p, p]"
    by (subst straightRanks5) simp_all
  have na: "mset [p, p, p, p, p] \<noteq> mset [10, 11, 12, 13, 1]"
    by (subst mset5_ace_high) simp_all
  show ?thesis
    unfolding classOf_def Let_def values_canon sameSuit_canon using cnt ns na by simp
qed

lemma score_11111:
  assumes "1 \<le> a" "a < b" "b < c" "c < d" "d < e" "e \<le> 13"
  shows "scoreOf (canon f a b c d e) =
      (if b = a + 1 \<and> c = a + 2 \<and> d = a + 3 \<and> e = a + 4
       then (if a = 1 then a + b + c + d + e
             else highOf a + highOf b + highOf c + highOf d + highOf e)
            * (if f then 100000000 else 10000)
       else if a = 1 \<and> b = 10 \<and> c = 11 \<and> d = 12 \<and> e = 13
       then (highOf a + highOf b + highOf c + highOf d + highOf e)
            * (if f then 1000000000 else 10000)
       else if f then (highOf a + highOf b + highOf c + highOf d + highOf e) * 100000
       else max 0 (max (highOf a) (max (highOf b) (max (highOf c) (max (highOf d) (highOf e))))))"
proof -
  have le: "a \<le> b" "b \<le> c" "c \<le> d" "d \<le> e"
    using assms by simp_all
  have ne: "a \<noteq> b" "a \<noteq> c" "a \<noteq> d" "a \<noteq> e" "b \<noteq> a" "b \<noteq> c" "b \<noteq> d" "b \<noteq> e"
      "c \<noteq> a" "c \<noteq> b" "c \<noteq> d" "c \<noteq> e" "d \<noteq> a" "d \<noteq> b" "d \<noteq> c" "d \<noteq> e"
      "e \<noteq> a" "e \<noteq> b" "e \<noteq> c" "e \<noteq> d"
    using assms by simp_all
  define W where "W \<longleftrightarrow> b = a + 1 \<and> c = a + 2 \<and> d = a + 3 \<and> e = a + 4"
  define A where "A \<longleftrightarrow> a = 1 \<and> b = 10 \<and> c = 11 \<and> d = 12 \<and> e = 13"
  have vg: "objectEntries (groupCards cardValue (canon f a b c d e))
      = [(a, [mkCard (if f then ''s'' else ''t'') a]), (b, [mkCard ''s'' b]),
         (c, [mkCard ''s'' c]), (d, [mkCard ''s'' d]), (e, [mkCard ''s'' e])]"
    using assms ne by (simp add: groups_canon entries_index)
  have st: "straightType [a, b, c, d, e] = (if W then a else if A then 10 else 0)"
    using assms(1,6) by (subst straightType5 [OF le]) (auto simp: W_def A_def)
  have w9: "W \<longrightarrow> a \<noteq> 10"
    using assms(6) by (auto simp: W_def)
  have "scoreOf (canon f a b c d e) =
      (if W then (if a = 1 then a + b + c + d + e
                  else highOf a + highOf b + highOf c + highOf d + highOf e)
                 * (if f then 100000000 else 10000)
       else if A then (highOf a + highOf b + highOf c + highOf d + highOf e)
                 * (if f then 1000000000 else 10000)
       else if f then (highOf a + highOf b + highOf c + highOf d + highOf e) * 100000
       else max 0 (max (highOf a) (max (highOf b) (max (highOf c) (max (highOf d) (highOf e))))))"
    using w9 assms(1)
    by (simp add: scoreOf_unfold vg st rankHand_def Let_def handValueOf_eq values_canon)
  then show ?thesis
    unfolding W_def A_def .
qed

lemma ranks_11111:
  assumes "1 \<le> a" "a < b" "b < c" "c < d" "d < e" "e \<le> 13"
    and cl: "classOf (canon f a b c d e) = Some cl"
  shows "classFloor cl \<le> scoreOf (canon f a b c d e)
         \<and> scoreOf (canon f a b c d e) \<le> classCeil cl"
proof -
  have le: "a \<le> b" "b \<le> c" "c \<le> d" "d \<le> e"
    using assms by simp_all
  have ne: "a \<noteq> b" "a \<noteq> c" "a \<noteq> d" "a \<noteq> e" "b \<noteq> a" "b \<noteq> c" "b \<noteq> d" "b \<noteq> e"
      "c \<noteq> a" "c \<noteq> b" "c \<noteq> d" "c \<noteq> e" "d \<noteq> a" "d \<noteq> b" "d \<noteq> c" "d \<noteq> e"
      "e \<noteq> a" "e \<noteq> b" "e \<noteq> c" "e \<noteq> d"
    using assms by simp_all
  have h: "highOf b = b" "highOf c = c" "highOf d = d" "highOf e = e"
    using assms by (simp_all add: highOf_def)
  have h1: "(a = 1 \<and> highOf a = 14) \<or> (2 \<le> a \<and> highOf a = a)"
    using assms(1) by (auto simp: highOf_def)
  define W where "W \<longleftrightarrow> b = a + 1 \<and> c = a + 2 \<and> d = a + 3 \<and> e = a + 4"
  define A where "A \<longleftrightarrow> a = 1 \<and> b = 10 \<and> c = 11 \<and> d = 12 \<and> e = 13"
  have sr: "straightRanks [a, b, c, d, e] = (W \<or> A)"
    using assms(1,6) by (subst straightRanks5 [OF le]) (auto simp: W_def A_def)
  have ah: "(mset [a, b, c, d, e] = mset [10, 11, 12, 13, 1]) = A"
    by (subst mset5_ace_high [OF le]) (simp add: A_def)
  have cnt: "rankCounts [a, b, c, d, e] = [1, 1, 1, 1, 1]"
    using ne by (simp add: rankCounts_def)
  have cls: "classOf (canon f a b c d e) =
      (if f \<and> A then Some RoyalFlush else if f \<and> (W \<or> A) then Some StraightFlush
       else if f then Some Flush else if W \<or> A then Some Straight else Some HighCard)"
    unfolding classOf_def Let_def values_canon sameSuit_canon ah sr cnt by simp
  have sc: "scoreOf (canon f a b c d e) =
      (if W then (if a = 1 then a + b + c + d + e
                  else highOf a + highOf b + highOf c + highOf d + highOf e)
                 * (if f then 100000000 else 10000)
       else if A then (highOf a + highOf b + highOf c + highOf d + highOf e)
                 * (if f then 1000000000 else 10000)
       else if f then (highOf a + highOf b + highOf c + highOf d + highOf e) * 100000
       else max 0 (max (highOf a) (max (highOf b) (max (highOf c) (max (highOf d) (highOf e))))))"
    unfolding W_def A_def using assms(1-6) by (rule score_11111)
  show ?thesis
  proof (cases W)
    case True
    then have "\<not> A" using assms by (auto simp: W_def A_def)
    with True cl have c: "cl = (if f then StraightFlush else Straight)"
      by (simp add: cls split: if_splits)
    from True have v: "b = a + 1" "c = a + 2" "d = a + 3" "e = a + 4"
      by (simp_all add: W_def)
    from h1 show ?thesis
    proof (elim disjE conjE)
      assume "a = 1" "highOf a = 14"
      with True v show ?thesis
        unfolding sc c by simp
    next
      assume "2 \<le> a" "highOf a = a"
      with True v h assms(6) show ?thesis
        unfolding sc c by simp
    qed
  next
    case nW: False
    show ?thesis
    proof (cases A)
      case True
      with nW cl have c: "cl = (if f then RoyalFlush else Straight)"
        by (simp add: cls split: if_splits)
      from True have v: "a = 1" "b = 10" "c = 11" "d = 12" "e = 13"
        by (simp_all add: A_def)
      have "highOf a + highOf b + highOf c + highOf d + highOf e = 60"
        using v by (simp add: highOf_def)
      with True nW show ?thesis
        unfolding sc c by simp
    next
      case False
      with nW cl have c: "cl = (if f then Flush else HighCard)"
        by (simp add: cls split: if_splits)
      have s: "20 \<le> highOf a + highOf b + highOf c + highOf d + highOf e
               \<and> highOf a + highOf b + highOf c + highOf d + highOf e \<le> 60"
        using h1 h assms by (elim disjE conjE) simp_all
      have m: "0 \<le> max 0 (max (highOf a) (max (highOf b) (max (highOf c) (max (highOf d) (highOf e)))))
               \<and> max 0 (max (highOf a) (max (highOf b) (max (highOf c) (max (highOf d) (highOf e))))) \<le> 14"
        using h1 h assms by (elim disjE conjE) simp_all
      from False nW s m show ?thesis
        unfolding sc c by simp
    qed
  qed
qed


lemma canon_bounds:
  assumes a0: "1 \<le> a" and le: "a \<le> b" "b \<le> c" "c \<le> d" "d \<le> e" and e13: "e \<le> 13"
    and strict: "f \<longrightarrow> a < b \<and> b < c \<and> c < d \<and> d < e"
    and cl: "classOf (canon f a b c d e) = Some cl"
  shows "classFloor cl \<le> scoreOf (canon f a b c d e)
         \<and> scoreOf (canon f a b c d e) \<le> classCeil cl"
proof (cases "a = b")
  case eq1: True
  show ?thesis
  proof (cases "b = c")
    case eq2: True
    show ?thesis
    proof (cases "c = d")
      case eq3: True
      show ?thesis
      proof (cases "d = e")
        case eq4: True
        show ?thesis
        proof -
        have nf: "\<not> f"
          using strict eq1 eq2 eq3 eq4 by auto
        have K: "canon f a b c d e = canon False a a a a a"
          using nf eq1 eq2 eq3 eq4 by simp
        from a0 e13 cl show ?thesis
          using ranks_5 [of a] eq1 eq2 eq3 eq4 unfolding K by simp
        qed
      next
        case False
        with le have lt4: "d < e" by simp
        show ?thesis
        proof -
        have nf: "\<not> f"
          using strict eq1 eq2 eq3 lt4 by auto
        have K: "canon f a b c d e = canon False a a a a e"
          using nf eq1 eq2 eq3 lt4 by simp
        from a0 e13 cl eq1 eq2 eq3 lt4 show ?thesis
          using ranks_41 [of a e] unfolding K by auto
        qed
      qed
    next
      case False
      with le have lt3: "c < d" by simp
      show ?thesis
      proof (cases "d = e")
        case eq4: True
        show ?thesis
        proof -
        have nf: "\<not> f"
          using strict eq1 eq2 lt3 eq4 by auto
        have K: "canon f a b c d e = canon False a a a d d"
          using nf eq1 eq2 lt3 eq4 by simp
        from a0 e13 cl eq1 eq2 lt3 eq4 show ?thesis
          using ranks_32 [of a d] unfolding K by auto
        qed
      next
        case False
        with le have lt4: "d < e" by simp
        show ?thesis
        proof -
        have nf: "\<not> f"
          using strict eq1 eq2 lt3 lt4 by auto
        have K: "canon f a b c d e = canon False a a a d e"
          using nf eq1 eq2 lt3 lt4 by simp
        from a0 e13 cl eq1 eq2 lt3 lt4 show ?thesis
          using ranks_311 [of a d e] unfolding K by auto
        qed
      qed
    qed
  next
    case False
    with le have lt2: "b < c" by simp
    show ?thesis
    proof (cases "c = d")
      case eq3: True
      show ?thesis
      proof (cases "d = e")
        case eq4: True
        show ?thesis
        proof -
        have nf: "\<not> f"
          using strict eq1 lt2 eq3 eq4 by auto
        have K: "canon f a b c d e = canon False a a c c c"
          using nf eq1 lt2 eq3 eq4 by simp
        from a0 e13 cl eq1 lt2 eq3 eq4 show ?thesis
          using ranks_23 [of a c] unfolding K by auto
        qed
      next
        case False
        with le have lt4: "d < e" by simp
        show ?thesis
        proof -
        have nf: "\<not> f"
          using strict eq1 lt2 eq3 lt4 by auto
        have K: "canon f a b c d e = canon False a a c c e"
          using nf eq1 lt2 eq3 lt4 by simp
        from a0 e13 cl eq1 lt2 eq3 lt4 show ?thesis
          using ranks_221 [of a c e] unfolding K by auto
        qed
      qed
    next
      case False
      with le have lt3: "c < d" by simp
      show ?thesis
      proof (cases "d = e")
        case eq4: True
        show ?thesis
        proof -
        have nf: "\<not> f"
          using strict eq1 lt2 lt3 eq4 by auto
        have K: "canon f a b c d e = canon False a a c d d"
          using nf eq1 lt2 lt3 eq4 by simp
        from a0 e13 cl eq1 lt2 lt3 eq4 show ?thesis
          using ranks_212 [of a c d] unfolding K by auto
        qed
      next
        case False
        with le have lt4: "d < e" by simp
        show ?thesis
        proof -
        have nf: "\<not> f"
          using strict eq1 lt2 lt3 lt4 by auto
        have K: "canon f a b c d e = canon False a a c d e"
          using nf eq1 lt2 lt3 lt4 by simp
        from a0 e13 cl eq1 lt2 lt3 lt4 show ?thesis
          using ranks_2111 [of a c d e] unfolding K by auto
        qed
      qed
    qed
  qed
next
  case False
  with le have lt1: "a < b" by simp
  show ?thesis
  proof (cases "b = c")
    case eq2: True
    show ?thesis
    proof (cases "c = d")
      case eq3: True
      show ?thesis
      proof (cases "d = e")
        case eq4: True
        show ?thesis
        proof -
        have nf: "\<not> f"
          using strict lt1 eq2 eq3 eq4 by auto
        have K: "canon f a b c d e = canon False a b b b b"
          using nf lt1 eq2 eq3 eq4 by simp
        from a0 e13 cl lt1 eq2 eq3 eq4 show ?thesis
          using ranks_14 [of a b] unfolding K by auto
        qed
      next
        case False
        with le have lt4: "d < e" by simp
        show ?thesis
        proof -
        have nf: "\<not> f"
          using strict lt1 eq2 eq3 lt4 by auto
        have K: "canon f a b c d e = canon False a b b b e"
          using nf lt1 eq2 eq3 lt4 by simp
        from a0 e13 cl lt1 eq2 eq3 lt4 show ?thesis
          using ranks_131 [of a b e] unfolding K by auto
        qed
      qed
    next
      case False
      with le have lt3: "c < d" by simp
      show ?thesis
      proof (cases "d = e")
        case eq4: True
        show ?thesis
        proof -
        have nf: "\<not> f"
          using strict lt1 eq2 lt3 eq4 by auto
        have K: "canon f a b c d e = canon False a b b d d"
          using nf lt1 eq2 lt3 eq4 by simp
        from a0 e13 cl lt1 eq2 lt3 eq4 show ?thesis
          using ranks_122 [of a b d] unfolding K by auto
        qed
      next
        case False
        with le have lt4: "d < e" by simp
        show ?thesis
        proof -
        have nf: "\<not> f"
          using strict lt1 eq2 lt3 lt4 by auto
        have K: "canon f a b c d e = canon False a b b d e"
          using nf lt1 eq2 lt3 lt4 by simp
        from a0 e13 cl lt1 eq2 lt3 lt4 show ?thesis
          using ranks_1211 [of a b d e] unfolding K by auto
        qed
      qed
    qed
  next
    case False
    with le have lt2: "b < c" by simp
    show ?thesis
    proof (cases "c = d")
      case eq3: True
      show ?thesis
      proof (cases "d = e")
        case eq4: True
        show ?thesis
        proof -
        have nf: "\<not> f"
          using strict lt1 lt2 eq3 eq4 by auto
        have K: "canon f a b c d e = canon False a b c c c"
          using nf lt1 lt2 eq3 eq4 by simp
        from a0 e13 cl lt1 lt2 eq3 eq4 show ?thesis
          using ranks_113 [of a b c] unfolding K by auto
        qed
      next
        case False
        with le have lt4: "d < e" by simp
        show ?thesis
        proof -
        have nf: "\<not> f"
          using strict lt1 lt2 eq3 lt4 by auto
        have K: "canon f a b c d e = canon False a b c c e"
          using nf lt1 lt2 eq3 lt4 by simp
        from a0 e13 cl lt1 lt2 eq3 lt4 show ?thesis
          using ranks_1121 [of a b c e] unfolding K by auto
        qed
      qed
    next
      case False
      with le have lt3: "c < d" by simp
      show ?thesis
      proof (cases "d = e")
        case eq4: True
        show ?thesis
        proof -
        have nf: "\<not> f"
          using strict lt1 lt2 lt3 eq4 by auto
        have K: "canon f a b c d e = canon False a b c d d"
          using nf lt1 lt2 lt3 eq4 by simp
        from a0 e13 cl lt1 lt2 lt3 eq4 show ?thesis
          using ranks_1112 [of a b c d] unfolding K by auto
        qed
      next
        case False
        with le have lt4: "d < e" by simp
        show ?thesis
        proof -
        from a0 e13 cl lt1 lt2 lt3 lt4 show ?thesis
          using ranks_11111 [of a b c d e f cl] by simp
        qed
      qed
    qed
  qed
qed

subsection \<open>Poker hands\<close>

lemma rankCounts_mset:
  assumes "mset vs = mset ws"
  shows "rankCounts vs = rankCounts ws"
proof -
  have c: "count_list vs = count (mset vs)" "count_list ws = count (mset ws)"
    by (simp_all add: fun_eq_iff count_mset)
  have "mset (remdups vs) = mset_set (set vs)" "mset (remdups ws) = mset_set (set ws)"
    by (simp_all add: mset_set_set [symmetric])
  moreover have "set vs = set ws"
    using assms by (rule mset_eq_setD)
  ultimately have "mset (map (count_list vs) (remdups vs)) = mset (map (count_list ws) (remdups ws))"
    using assms c by simp
  then have "sort (map (count_list vs) (remdups vs)) = sort (map (count_list ws) (remdups ws))"
    by (metis sorted_list_of_multiset_mset)
  then show ?thesis
    by (simp add: rankCounts_def)
qed

lemma classOf_values:
  assumes "mset (map cardValue h1) = mset (map cardValue h2)" "sameSuit h1 = sameSuit h2"
  shows "classOf h1 = classOf h2"
proof -
  have "rankCounts (map cardValue h1) = rankCounts (map cardValue h2)"
    using assms(1) by (rule rankCounts_mset)
  moreover have "straightRanks (map cardValue h1) = straightRanks (map cardValue h2)"
    unfolding straightRanks_def assms(1) ..
  moreover have "image_mset cardValue (mset h1) = image_mset cardValue (mset h2)"
    using assms(1) by simp
  ultimately show ?thesis
    by (simp add: classOf_def Let_def assms(2))
qed

lemma validCard_mkCard: "1 \<le> v \<Longrightarrow> v \<le> 13 \<Longrightarrow> validCard (mkCard s v)"
  by (simp add: validCard_def mkCard_def)

lemma validHand_canon:
  "1 \<le> a \<Longrightarrow> a \<le> b \<Longrightarrow> b \<le> c \<Longrightarrow> c \<le> d \<Longrightarrow> d \<le> e \<Longrightarrow> e \<le> 13
     \<Longrightarrow> validHand (canon f a b c d e)"
  by (simp add: validHand_def canon_def validCard_mkCard)

lemma sameSuit_distinct_values:
  assumes "sameSuit h" "distinct (map (\<lambda>c. (suit c, cardValue c)) h)"
  shows "distinct (map cardValue h)"
proof -
  from assms(1) obtain s where s: "suit ` set h = {s}"
    unfolding sameSuit_def by (metis card_1_singletonE)
  then have "\<forall>c\<in>set h. suit c = s" by auto
  then have "map (\<lambda>c. (suit c, cardValue c)) h = map (Pair s) (map cardValue h)"
    by simp
  with assms(2) have "distinct (map (Pair s) (map cardValue h))" by simp
  then show ?thesis
    unfolding distinct_map [of "Pair s" "map cardValue h"] by blast
qed

lemma list5: "length xs = 5 \<Longrightarrow> \<exists>a b c d e. xs = [a, b, c, d, e]"
  by (auto simp: numeral_eq_Suc length_Suc_conv)

lemma pokerHand_bounds:
  assumes p: "pokerHand h" and cl: "classOf h = Some cl"
  shows "classFloor cl \<le> scoreOf h \<and> scoreOf h \<le> classCeil cl"
proof -
  from p have len: "length h = 5" and v: "validHand h"
    and dist: "distinct (map (\<lambda>c. (suit c, cardValue c)) h)"
    by (simp_all add: pokerHand_def)
  let ?vs = "sort (map cardValue h)"
  have "length ?vs = 5" using len by simp
  then obtain a b c d e where vs: "?vs = [a, b, c, d, e]"
    using list5 by blast
  have "sorted ?vs" by simp
  then have le: "a \<le> b" "b \<le> c" "c \<le> d" "d \<le> e"
    unfolding vs by simp_all
  have m: "mset (map cardValue h) = mset [a, b, c, d, e]"
    using vs by (metis mset_sort)
  have "set [a, b, c, d, e] = cardValue ` set h"
    using mset_eq_setD [OF m] by simp
  then have "a \<in> cardValue ` set h" "e \<in> cardValue ` set h"
    by auto
  then have r: "1 \<le> a" "e \<le> 13"
    using v by (auto simp: validHand_iff validCard_def)
  have strict: "sameSuit h \<longrightarrow> a < b \<and> b < c \<and> c < d \<and> d < e"
  proof
    assume "sameSuit h"
    then have "distinct (map cardValue h)"
      using dist by (rule sameSuit_distinct_values)
    then have "distinct [a, b, c, d, e]"
      using m by (metis distinct_count_atmost_1 set_mset_mset mset_eq_setD)
    with le show "a < b \<and> b < c \<and> c < d \<and> d < e"
      by auto
  qed
  let ?K = "canon (sameSuit h) a b c d e"
  have vK: "validHand ?K"
    using r le by (rule_tac validHand_canon) simp_all
  have mK: "mset (map cardValue h) = mset (map cardValue ?K)"
    using m by simp
  have sK: "sameSuit h = sameSuit ?K"
    by simp
  have "scoreOf h = scoreOf ?K"
    using v vK mK sK by (rule scoreOf_values)
  moreover have "classOf h = classOf ?K"
    using mK sK by (rule classOf_values)
  moreover have "classFloor cl \<le> scoreOf ?K \<and> scoreOf ?K \<le> classCeil cl"
    using r(1) le r(2) strict cl [unfolded \<open>classOf h = classOf ?K\<close>]
    by (rule canon_bounds)
  ultimately show ?thesis by simp
qed

lemma class_gap: "classRank c1 < classRank c2 \<Longrightarrow> classCeil c1 < classFloor c2"
  by (cases c1; cases c2) simp_all

section \<open>Properties of scoreHands\<close>

lemma permLoop_keepBest:
  "(highestScore (permLoop pl p cnt perms sc), winners (permLoop pl p cnt perms sc))
     = foldl keepBest (highestScore sc, winners sc) (scoredHands pl p cnt perms)"
proof (induction perms arbitrary: cnt sc)
  case Nil
  show ?case by (simp add: scoredHands_def)
next
  case (Cons perm perms)
  show ?case
    by (simp add: Let_def Cons.IH [unfolded scoredHands_def] scoredHands_def keepBest_def)
qed

lemma playersLoop_keepBest:
  "(highestScore (playersLoop ps pub priv sc), winners (playersLoop ps pub priv sc))
     = foldl keepBest (highestScore sc, winners sc) (entriesOf ps pub priv)"
proof (induction priv arbitrary: sc)
  case Nil
  show ?case by (simp add: entriesOf_def)
next
  case (Cons entry priv)
  obtain p cs where e: "entry = (p, cs)" by (cases entry)
  show ?case
  proof (cases "getPlayer ps p")
    case None
    with e Cons.IH show ?thesis by (simp add: entriesOf_def)
  next
    case (Some pl)
    show ?thesis
    proof (cases "hasFolded pl")
      case True
      with e Some Cons.IH show ?thesis by (simp add: entriesOf_def)
    next
      case False
      let ?sc1 = "sc\<lparr>scHands := objSet p [] (scHands sc)\<rparr>"
      let ?perms = "createCardPermutations (cs @ pub)"
      have "(highestScore (playersLoop ps pub (entry # priv) sc),
             winners (playersLoop ps pub (entry # priv) sc))
            = foldl keepBest (highestScore (permLoop pl p 0 ?perms ?sc1),
                              winners (permLoop pl p 0 ?perms ?sc1)) (entriesOf ps pub priv)"
        using e Some False Cons.IH [of "permLoop pl p 0 ?perms ?sc1"] by (simp add: Let_def)
      also have "\<dots> = foldl keepBest (foldl keepBest (highestScore sc, winners sc)
                            (scoredHands pl p 0 ?perms)) (entriesOf ps pub priv)"
        using permLoop_keepBest [of pl p 0 ?perms ?sc1] by simp
      finally show ?thesis
        using e Some False by (simp add: entriesOf_def)
    qed
  qed
qed

lemma keepBest_filter:
  "foldl keepBest (hi, []) es =
     (Max (insert hi ((\<lambda>w. score (winHand w)) ` set es)),
      filter (\<lambda>w. score (winHand w) = Max (insert hi ((\<lambda>w. score (winHand w)) ` set es))) es)"
proof (induction es rule: rev_induct)
  case Nil
  show ?case by simp
next
  case (snoc w es)
  let ?s = "\<lambda>w. score (winHand w)"
  define M where "M = Max (insert hi (?s ` set es))"
  define M' where "M' = Max (insert hi (?s ` set (es @ [w])))"
  have "insert hi (?s ` set (es @ [w])) = insert (?s w) (insert hi (?s ` set es))"
    by auto
  then have M': "M' = max (?s w) M"
    unfolding M'_def M_def using Max_insert [of "insert hi (?s ` set es)" "?s w"] by simp
  have le: "\<forall>x\<in>set es. ?s x \<le> M"
    unfolding M_def by simp
  have step: "foldl keepBest (hi, []) (es @ [w]) = keepBest (M, filter (\<lambda>x. ?s x = M) es) w"
    unfolding M_def by (simp only: foldl_append foldl.simps snoc.IH)
  have "foldl keepBest (hi, []) (es @ [w]) = (M', filter (\<lambda>x. ?s x = M') (es @ [w]))"
  proof (cases "?s w = M")
    case True
    then show ?thesis
      unfolding step M' by (simp add: keepBest_def)
  next
    case ne: False
    show ?thesis
    proof (cases "?s w > M")
      case True
      then have "\<forall>x\<in>set es. ?s x \<noteq> ?s w"
        using le by fastforce
      then have "filter (\<lambda>x. ?s x = ?s w) es = []"
        by (simp add: filter_empty_conv)
      with True ne show ?thesis
        unfolding step M' by (simp add: keepBest_def max_def)
    next
      case False
      with ne show ?thesis
        unfolding step M' by (simp add: keepBest_def max_def)
    qed
  qed
  then show ?case
    unfolding M'_def .
qed

lemma tieLoop_keepBest:
  assumes "\<forall>w\<in>set ws. privateScore priv (privateID (winPlayer w)) \<noteq> None"
  shows "\<exists>sc2. tieLoop priv ws sc = Inr sc2
           \<and> (highestScore sc2, winners sc2)
               = foldl keepBest (highestScore sc, winners sc) (map (privateRescore priv) ws)"
  using assms
proof (induction ws arbitrary: sc)
  case Nil
  show ?case by simp
next
  case (Cons w ws)
  from Cons.prems obtain s where s: "privateScore priv (privateID (winPlayer w)) = Some s"
    by auto
  let ?w' = "w\<lparr>winHand := (winHand w)\<lparr>score := s\<rparr>\<rparr>"
  let ?sc1 = "sc\<lparr>scHands := setScoreAt (winRef w) s (scHands sc)\<rparr>"
  let ?sc' = "if s > highestScore ?sc1 then ?sc1\<lparr>highestScore := s, winners := [?w']\<rparr>
              else if s = highestScore ?sc1 then ?sc1\<lparr>winners := winners ?sc1 @ [?w']\<rparr>
              else ?sc1"
  have r: "privateRescore priv w = ?w'"
    by (simp add: privateRescore_def s)
  have step: "tieLoop priv (w # ws) sc = tieLoop priv ws ?sc'"
    by (simp add: s Let_def)
  have kb: "(highestScore ?sc', winners ?sc') = keepBest (highestScore sc, winners sc) ?w'"
    by (simp add: keepBest_def)
  from Cons.prems have "\<forall>w\<in>set ws. privateScore priv (privateID (winPlayer w)) \<noteq> None"
    by simp
  from Cons.IH [OF this, of ?sc'] obtain sc2 where
    "tieLoop priv ws ?sc' = Inr sc2"
    "(highestScore sc2, winners sc2)
       = foldl keepBest (highestScore ?sc', winners ?sc') (map (privateRescore priv) ws)"
    by blast
  then show ?case
    unfolding step by (simp only: kb list.map foldl.simps r) blast
qed

lemma dedupLoop_players:
  "distinct (map winPlayer new) \<Longrightarrow>
     distinct (map winPlayer (dedupLoop ws new))
     \<and> set (map winPlayer (dedupLoop ws new)) = set (map winPlayer new) \<union> set (map winPlayer ws)"
proof (induction ws arbitrary: new)
  case Nil
  then show ?case by simp
next
  case (Cons w ws)
  show ?case
  proof (cases "find (\<lambda>n. winPlayer n = winPlayer w) new")
    case None
    then have "winPlayer w \<notin> set (map winPlayer new)"
      by (auto simp: find_None_iff)
    with Cons.prems have "distinct (map winPlayer (new @ [w]))"
      by simp
    from Cons.IH [OF this] None show ?thesis
      by auto
  next
    case (Some n)
    then have "find (\<lambda>n. winPlayer n = winPlayer w) new \<noteq> None"
      by simp
    then obtain x where "x \<in> set new" "winPlayer x = winPlayer w"
      unfolding find_None_iff by blast
    then have "winPlayer w \<in> set (map winPlayer new)"
      by (metis image_eqI set_map)
    with Cons.IH [OF Cons.prems] Some show ?thesis
      by auto
  qed
qed

lemma finishScoring_players:
  "\<exists>ws. winningPlayers (finishScoring obj sc) = Some ws \<and> distinct ws
        \<and> set ws = winPlayer ` set (winners sc)"
  using dedupLoop_players [of "[]" "winners sc"]
  by (simp add: finishScoring_def Let_def)

lemma scoreHands_distinct:
  assumes "fst (scoreHands st obj) = Inr res"
  shows "\<exists>ws. winningPlayers res = Some ws \<and> distinct ws"
proof -
  from assms obtain sc where "res = finishScoring obj sc"
    by (auto simp: scoreHands_def Let_def case_prod_beta split: if_splits sum.splits)
  then show ?thesis
    using finishScoring_players [of obj sc] by blast
qed

lemma createCardPermutations_hands:
  assumes "perm \<in> set (createCardPermutations xs)"
  shows "set perm \<subseteq> set xs \<and> length perm \<le> 5"
proof (cases "length xs \<le> 5")
  case True
  with assms show ?thesis by (simp add: createCardPermutations_def)
next
  case n5: False
  show ?thesis
  proof (cases "length xs = 6")
    case True
    then have "\<forall>i<6. xs ! i \<in> set xs" by simp
    then have "xs ! 0 \<in> set xs" "xs ! 1 \<in> set xs" "xs ! 2 \<in> set xs" "xs ! 3 \<in> set xs"
      "xs ! 4 \<in> set xs" "xs ! 5 \<in> set xs" by simp_all
    with assms True show ?thesis
      by (auto simp: createCardPermutations_def Let_def)
  next
    case False
    with n5 have "7 \<le> length xs" by simp
    then have "\<forall>i<7. xs ! i \<in> set xs" by simp
    then have m: "xs ! 0 \<in> set xs" "xs ! 1 \<in> set xs" "xs ! 2 \<in> set xs" "xs ! 3 \<in> set xs"
      "xs ! 4 \<in> set xs" "xs ! 5 \<in> set xs" "xs ! 6 \<in> set xs" by simp_all
    from assms n5 False have "perm \<in> set
           [[xs ! 2, xs ! 3, xs ! 4, xs ! 5, xs ! 6],
            [xs ! 0, xs ! 3, xs ! 4, xs ! 5, xs ! 6],
            [xs ! 2, xs ! 0, xs ! 4, xs ! 5, xs ! 6],
            [xs ! 2, xs ! 3, xs ! 0, xs ! 5, xs ! 6],
            [xs ! 2, xs ! 3, xs ! 4, xs ! 0, xs ! 6],
            [xs ! 2, xs ! 3, xs ! 4, xs ! 5, xs ! 0],
            [xs ! 1, xs ! 3, xs ! 4, xs ! 5, xs ! 6],
            [xs ! 2, xs ! 1, xs ! 4, xs ! 5, xs ! 6],
            [xs ! 2, xs ! 3, xs ! 1, xs ! 5, xs ! 6],
            [xs ! 2, xs ! 3, xs ! 4, xs ! 1, xs ! 6],
            [xs ! 2, xs ! 3, xs ! 4, xs ! 5, xs ! 1],
            [xs ! 0, xs ! 1, xs ! 4, xs ! 5, xs ! 6],
            [xs ! 0, xs ! 3, xs ! 1, xs ! 5, xs ! 6],
            [xs ! 0, xs ! 3, xs ! 4, xs ! 1, xs ! 6],
            [xs ! 0, xs ! 3, xs ! 4, xs ! 5, xs ! 1],
            [xs ! 2, xs ! 0, xs ! 1, xs ! 5, xs ! 6],
            [xs ! 2, xs ! 0, xs ! 4, xs ! 1, xs ! 6],
            [xs ! 2, xs ! 0, xs ! 4, xs ! 5, xs ! 1],
            [xs ! 2, xs ! 3, xs ! 0, xs ! 1, xs ! 6],
            [xs ! 2, xs ! 3, xs ! 0, xs ! 5, xs ! 1],
            [xs ! 2, xs ! 3, xs ! 4, xs ! 0, xs ! 1]]"
      by (simp add: createCardPermutations_def Let_def)
    then have "\<exists>i j k l m. perm = [xs ! i, xs ! j, xs ! k, xs ! l, xs ! m]
                 \<and> i < 7 \<and> j < 7 \<and> k < 7 \<and> l < 7 \<and> m < 7"
      by (simp only: set_simps insert_iff empty_iff) (elim disjE; force)
    with \<open>\<forall>i<7. xs ! i \<in> set xs\<close> show ?thesis
      by auto
  qed
qed

lemma entry_hand:
  assumes "e \<in> set (entriesOf ps pub priv)"
  shows "\<exists>p cs perm. (p, cs) \<in> set priv \<and> perm \<in> set (createCardPermutations (cs @ pub))
           \<and> winHand e = scoreHand \<lparr>hand = perm, score = -1, name = None\<rparr>"
  using assms
  apply (auto simp: entriesOf_def scoredHands_def in_set_enumerate_eq
      split: option.splits if_splits)
  apply (metis nth_mem)
  done

lemma entry_score_nonneg:
  assumes "e \<in> set (entriesOf ps pub priv)" "validHand pub" "list_all (\<lambda>x. validHand (snd x)) priv"
  shows "0 \<le> score (winHand e)"
proof -
  from entry_hand [OF assms(1)] obtain p cs perm where
    e: "(p, cs) \<in> set priv" "perm \<in> set (createCardPermutations (cs @ pub))"
       "winHand e = scoreHand \<lparr>hand = perm, score = -1, name = None\<rparr>"
    by blast
  have "validHand cs"
    using e(1) assms(3) by (auto simp: list_all_iff)
  then have "validHand (cs @ pub)"
    using assms(2) by (simp add: validHand_def)
  moreover have "set perm \<subseteq> set (cs @ pub)" "length perm \<le> 5"
    using createCardPermutations_hands [OF e(2)] by simp_all
  ultimately have "validHand perm" "length perm \<le> 5"
    by (auto simp: validHand_iff)
  then have "0 \<le> scoreOf perm"
    by (rule scoreOf_nonneg)
  then show ?thesis
    by (simp add: e(3) score_scoreHand)
qed

lemma privateScore_nonneg:
  assumes "privateScore priv p = Some t" "list_all (\<lambda>x. validHand (snd x)) priv"
  shows "0 \<le> t"
proof -
  from assms(1) obtain c1 c2 rest where m: "map_of priv p = Some (c1 # c2 # rest)"
    and t: "t = (if highvalue c1 > highvalue c2 then highvalue c1 * 10 + highvalue c2
                 else highvalue c2 * 10 + highvalue c1)"
    by (auto simp: privateScore_def split: option.splits list.splits)
  from m have "(p, c1 # c2 # rest) \<in> set priv"
    by (rule map_of_SomeD)
  with assms(2) have "validHand (c1 # c2 # rest)"
    by (auto simp: list_all_iff)
  then have "0 \<le> highvalue c1" "0 \<le> highvalue c2"
    by (auto simp: validHand_def validCard_def highOf_def)
  with t show ?thesis by simp
qed

text \<open>
  The order of \<open>forIn\<close> on an object with the keys \<open>10, b, 2, a, 01\<close> created in this
  order: the array indices 2 and 10 first, then the others as created.
\<close>

lemma forIn_index_keys_first:
  "map fst (forIn [(''10'', 1::nat), (''b'', 2), (''2'', 3), (''a'', 4), (''01'', 5)])
     = [''2'', ''10'', ''b'', ''a'', ''01'']"
  by code_simp

lemma set_forIn [simp]: "set (forIn obj) = set obj"
  by (auto simp: forIn_def)

lemma two_in_list:
  assumes "a \<in> set xs" "b \<in> set xs" "a \<noteq> b"
  shows "1 < length xs"
proof -
  have "card {a, b} \<le> card (set xs)"
    using assms by (intro card_mono) auto
  also have "\<dots> \<le> length xs"
    by (rule card_length)
  finally show ?thesis
    using assms(3) by simp
qed

lemma getAnalysis_after_players:
  assumes "analysisField st = Some obj"
  shows "fst (getAnalysis (if c then st else snd (getPlayers st))) = obj"
  using assms
  by (simp add: getAnalysis_def getPlayers_def refreshPlayers_def split: option.splits)

lemma scoreHands_tie:
  assumes sc: "sc = playersLoop (fst (getPlayers st)) (publicOf obj) (forIn (privateOf obj))
                 \<lparr>scHands = [], highestScore = -1, winners = []\<rparr>"
    and af: "analysisField st = Some obj"
    and len: "1 < length (winners sc)"
    and tie: "tieLoop (privateOf obj) (winners sc) (sc\<lparr>highestScore := 0, winners := []\<rparr>) = Inr sc2"
  shows "fst (scoreHands st obj) = Inr (finishScoring obj sc2)"
proof -
  let ?st1 = "if privateOf obj = [] then st else snd (getPlayers st)"
  have "fst (getAnalysis ?st1) = obj"
    using af by (rule getAnalysis_after_players)
  then show ?thesis
    using len tie unfolding sc
    by (simp add: scoreHands_def Let_def case_prod_beta)
qed

lemma scoreHands_tied_players:
  fixes st :: "'k analyzer"
  assumes af: "analysisField st = Some cardsObj"
    and vpub: "validHand (publicOf cardsObj)"
    and vpriv: "list_all (\<lambda>e. validHand (snd e)) (privateOf cardsObj)"
    and E: "E = entriesOf (fst (getPlayers st)) (publicOf cardsObj) (forIn (privateOf cardsObj))"
    and a: "a \<in> set E" and b: "b \<in> set E" and ab: "winPlayer a \<noteq> winPlayer b"
    and sa: "score (winHand a) = best" and sb: "score (winHand b) = best"
    and le: "list_all (\<lambda>e. score (winHand e) \<le> best) E"
    and ta: "privateScore (privateOf cardsObj) (privateID (winPlayer a)) = Some t"
    and tb: "privateScore (privateOf cardsObj) (privateID (winPlayer b)) = Some t"
    and others: "list_all (\<lambda>e. score (winHand e) = best \<longrightarrow>
                    (case privateScore (privateOf cardsObj) (privateID (winPlayer e)) of
                       None \<Rightarrow> False | Some t' \<Rightarrow> t' \<le> t)) E"
  shows "\<exists>res ws. fst (scoreHands st cardsObj) = Inr res \<and> winningPlayers res = Some ws
           \<and> winPlayer a \<in> set ws \<and> winPlayer b \<in> set ws \<and> distinct ws"
proof -
  let ?s = "\<lambda>w::'k winner. score (winHand w)"
  define priv where "priv = privateOf cardsObj"
  define sc where "sc = playersLoop (fst (getPlayers st)) (publicOf cardsObj)
                          (forIn (privateOf cardsObj))
                          \<lparr>scHands = [], highestScore = -1, winners = []\<rparr>"
  have vpriv': "list_all (\<lambda>e. validHand (snd e)) (forIn (privateOf cardsObj))"
    using vpriv by (simp add: list_all_iff)
  have best0: "0 \<le> best"
    using entry_score_nonneg [OF a [unfolded E] vpub vpriv'] sa by simp
  have "Max (insert (-1) (?s ` set E)) = best"
  proof (rule Max_eqI)
    show "finite (insert (-1) (?s ` set E))" by simp
    show "best \<in> insert (-1) (?s ` set E)" using a sa by auto
    fix y assume "y \<in> insert (-1) (?s ` set E)"
    then show "y \<le> best" using le best0 by (auto simp: list_all_iff)
  qed
  moreover have "(highestScore sc, winners sc) = foldl keepBest (-1, []) E"
    unfolding sc_def E
    using playersLoop_keepBest [of "fst (getPlayers st)" "publicOf cardsObj"
        "forIn (privateOf cardsObj)" "\<lparr>scHands = [], highestScore = -1, winners = []\<rparr>"]
    by simp
  ultimately have "(highestScore sc, winners sc) = (best, filter (\<lambda>w. ?s w = best) E)"
    by (simp only: keepBest_filter)
  then have W1: "winners sc = filter (\<lambda>w. ?s w = best) E"
    by (rule Pair_inject)
  have a1: "a \<in> set (winners sc)" and b1: "b \<in> set (winners sc)"
    using a b sa sb by (simp_all add: W1)
  have "a \<noteq> b" using ab by auto
  with a1 b1 have len: "1 < length (winners sc)"
    by (rule two_in_list)
  have defined: "\<forall>w\<in>set (winners sc). privateScore priv (privateID (winPlayer w)) \<noteq> None"
    using others unfolding W1 priv_def by (auto simp: list_all_iff split: option.splits)
  from tieLoop_keepBest [OF defined, of "sc\<lparr>highestScore := 0, winners := []\<rparr>"]
  obtain sc2 where tie: "tieLoop priv (winners sc) (sc\<lparr>highestScore := 0, winners := []\<rparr>) = Inr sc2"
    and fold2: "(highestScore sc2, winners sc2)
                  = foldl keepBest (0, []) (map (privateRescore priv) (winners sc))"
    by auto
  define R where "R = map (privateRescore priv) (winners sc)"
  have ra: "?s (privateRescore priv a) = t" and rb: "?s (privateRescore priv b) = t"
    using ta tb by (simp_all add: privateRescore_def priv_def)
  have t0: "0 \<le> t"
    using ta vpriv by (rule privateScore_nonneg)
  have rle: "\<forall>r\<in>set R. ?s r \<le> t"
    using others unfolding R_def W1 priv_def
    by (auto simp: list_all_iff privateRescore_def split: option.splits)
  have "Max (insert 0 (?s ` set R)) = t"
  proof (rule Max_eqI)
    show "finite (insert 0 (?s ` set R))" by simp
    show "t \<in> insert 0 (?s ` set R)"
      using a1 ra unfolding R_def by (metis (no_types, lifting) image_eqI insertI2 set_map)
    fix y assume "y \<in> insert 0 (?s ` set R)"
    then show "y \<le> t" using rle t0 by auto
  qed
  then have "foldl keepBest (0, []) R = (t, filter (\<lambda>w. ?s w = t) R)"
    by (simp only: keepBest_filter)
  moreover have "(highestScore sc2, winners sc2) = foldl keepBest (0, []) R"
    unfolding R_def by (rule fold2)
  ultimately have "(highestScore sc2, winners sc2) = (t, filter (\<lambda>w. ?s w = t) R)"
    by (simp only:)
  then have W2: "winners sc2 = filter (\<lambda>w. ?s w = t) R"
    by (rule Pair_inject)
  have "privateRescore priv a \<in> set (winners sc2)" "privateRescore priv b \<in> set (winners sc2)"
    using a1 b1 ra rb unfolding W2 R_def by simp_all
  moreover have "winPlayer (privateRescore priv a) = winPlayer a"
    "winPlayer (privateRescore priv b) = winPlayer b"
    by (simp_all add: privateRescore_def)
  ultimately have in2: "winPlayer a \<in> winPlayer ` set (winners sc2)"
    "winPlayer b \<in> winPlayer ` set (winners sc2)"
    by (metis image_eqI)+
  have res: "fst (scoreHands st cardsObj) = Inr (finishScoring cardsObj sc2)"
    using sc_def af len tie [unfolded priv_def] by (rule scoreHands_tie)
  from finishScoring_players [of cardsObj sc2] obtain ws where
    "winningPlayers (finishScoring cardsObj sc2) = Some ws" "distinct ws"
    "set ws = winPlayer ` set (winners sc2)"
    by blast
  with res in2 show ?thesis
    by blast
qed

section \<open>Scores of poker hands\<close>

text \<open>
  Claim C6. The score that \<^verbatim>\<open>scoreHand\<close> gives a hand of valid cards does not change
  when the cards are permuted, and the scores are strictly monotone across the rank
  classes: of two poker hands, the one in the higher class of the table (Royal Flush,
  Straight Flush, Four of a Kind, Full House, Flush, Straight, Three of a Kind, Two Pairs,
  One Pair, High Card) has the strictly greater score.
\<close>

theorem scoreHand_permutation_invariant_and_monotone:
  "(validHand (hand h1) \<and> mset (hand h2) = mset (hand h1)
      \<longrightarrow> score (scoreHand h1) = score (scoreHand h2))
   \<and> (pokerHand (hand h1) \<and> pokerHand (hand h2)
        \<and> classOf (hand h1) = Some c1 \<and> classOf (hand h2) = Some c2
        \<and> classRank c1 < classRank c2
      \<longrightarrow> score (scoreHand h1) < score (scoreHand h2))"
proof (intro conjI impI)
  assume a: "validHand (hand h1) \<and> mset (hand h2) = mset (hand h1)"
  then have "mset (hand h1) = mset (hand h2)" by simp
  moreover have "\<forall>c\<in>set (hand h1). isArrayIndex (cardValue c)"
    using a valid_index [of "hand h1"] by blast
  ultimately have "scoreOf (hand h1) = scoreOf (hand h2)"
    by (rule scoreOf_permutation)
  then show "score (scoreHand h1) = score (scoreHand h2)"
    by (simp add: score_scoreHand)
next
  assume a: "pokerHand (hand h1) \<and> pokerHand (hand h2)
        \<and> classOf (hand h1) = Some c1 \<and> classOf (hand h2) = Some c2
        \<and> classRank c1 < classRank c2"
  have "scoreOf (hand h1) \<le> classCeil c1"
    using a pokerHand_bounds [of "hand h1" c1] by simp
  moreover have "classFloor c2 \<le> scoreOf (hand h2)"
    using a pokerHand_bounds [of "hand h2" c2] by simp
  moreover have "classCeil c1 < classFloor c2"
    using a by (simp add: class_gap)
  ultimately show "score (scoreHand h1) < score (scoreHand h2)"
    by (simp add: score_scoreHand)
qed

theorem scoreHand_permutation_invariant_and_monotone_witness:
  "validHand (hand (handOf lowStraight))
   \<and> mset (hand (handOf lowStraightMixed)) = mset (hand (handOf lowStraight))
   \<and> score (scoreHand (handOf lowStraight)) = score (scoreHand (handOf lowStraightMixed))
   \<and> pokerHand (hand (handOf sixStraight)) \<and> pokerHand (hand (handOf lowFlush))
   \<and> classOf (hand (handOf sixStraight)) = Some Straight
   \<and> classOf (hand (handOf lowFlush)) = Some Flush
   \<and> classRank Straight < classRank Flush
   \<and> score (scoreHand (handOf sixStraight)) < score (scoreHand (handOf lowFlush))"
proof -
  have v: "validHand (hand (handOf lowStraight))"
    by code_simp
  have m: "mset (hand (handOf lowStraightMixed)) = mset (hand (handOf lowStraight))"
    by code_simp
  have p: "pokerHand (hand (handOf sixStraight))" "pokerHand (hand (handOf lowFlush))"
    by code_simp+
  have c: "classOf (hand (handOf sixStraight)) = Some Straight"
    "classOf (hand (handOf lowFlush)) = Some Flush"
    by code_simp+
  have r: "classRank Straight < classRank Flush"
    by simp
  from v m p c r
    scoreHand_permutation_invariant_and_monotone
      [of "handOf lowStraight" "handOf lowStraightMixed"]
    scoreHand_permutation_invariant_and_monotone
      [of "handOf sixStraight" "handOf lowFlush" Straight Flush]
  show ?thesis
    by blast
qed

text \<open>
  Claim C7, as amended. For every list of ranks, \<^verbatim>\<open>straightType\<close> returns the low rank
  \<open>k\<close> from 1 to 9 when the ranks are \<open>k, \<dots>, k + 4\<close> as a multiset, 10 when they are
  \<open>10, 11, 12, 13, 1\<close>, and 0 otherwise. \<^verbatim>\<open>scoreHand\<close> scores the low-ace straight
  \<open>A-2-3-4-5\<close>, whose ace counts 1, strictly below the straight \<open>2-3-4-5-6\<close>, unless the
  former is of one suit and the latter is not.
\<close>

theorem straightType_windows_and_low_ace:
  "(1 \<le> k \<and> k \<le> 9 \<and> mset vs = mset [k, k + 1, k + 2, k + 3, k + 4]
      \<longrightarrow> straightType vs = k)
   \<and> (mset vs = mset [10, 11, 12, 13, 1] \<longrightarrow> straightType vs = 10)
   \<and> ((\<forall>j. 1 \<le> j \<and> j \<le> 9 \<longrightarrow> mset vs \<noteq> mset [j, j + 1, j + 2, j + 3, j + 4])
        \<and> mset vs \<noteq> mset [10, 11, 12, 13, 1]
      \<longrightarrow> straightType vs = 0)
   \<and> (validHand (hand h1) \<and> validHand (hand h2)
        \<and> mset (map cardValue (hand h1)) = mset [1, 2, 3, 4, 5]
        \<and> mset (map cardValue (hand h2)) = mset [2, 3, 4, 5, 6]
        \<and> (sameSuit (hand h1) \<longrightarrow> sameSuit (hand h2))
      \<longrightarrow> score (scoreHand h1) < score (scoreHand h2))"
proof (intro conjI impI)
  assume "1 \<le> k \<and> k \<le> 9 \<and> mset vs = mset [k, k + 1, k + 2, k + 3, k + 4]"
  then show "straightType vs = k"
    using straightType_window [of k vs] by (simp add: window_def)
next
  assume "mset vs = mset [10, 11, 12, 13, 1]"
  then show "straightType vs = 10"
    by (rule straightType_ace_high)
next
  assume a: "(\<forall>j. 1 \<le> j \<and> j \<le> 9 \<longrightarrow> mset vs \<noteq> mset [j, j + 1, j + 2, j + 3, j + 4])
        \<and> mset vs \<noteq> mset [10, 11, 12, 13, 1]"
  show "straightType vs = 0"
  proof (rule straightType_other)
    show "\<forall>k. 1 \<le> k \<and> k \<le> 9 \<longrightarrow> mset vs \<noteq> mset (window k)"
      using a unfolding window_def by blast
    show "mset vs \<noteq> mset [10, 11, 12, 13, 1]"
      using a by blast
  qed
next
  assume a: "validHand (hand h1) \<and> validHand (hand h2)
        \<and> mset (map cardValue (hand h1)) = mset [1, 2, 3, 4, 5]
        \<and> mset (map cardValue (hand h2)) = mset [2, 3, 4, 5, 6]
        \<and> (sameSuit (hand h1) \<longrightarrow> sameSuit (hand h2))"
  let ?K1 = "canon (sameSuit (hand h1)) 1 2 3 4 5"
  let ?K2 = "canon (sameSuit (hand h2)) 2 3 4 5 6"
  have "scoreOf (hand h1) = scoreOf ?K1"
  proof (rule scoreOf_values)
    show "validHand (hand h1)" using a by blast
    show "validHand ?K1" by (rule validHand_canon) simp_all
    show "mset (map cardValue (hand h1)) = mset (map cardValue ?K1)"
      using a by (simp only: values_canon)
    show "sameSuit (hand h1) = sameSuit ?K1" by simp
  qed
  also have "\<dots> = 15 * (if sameSuit (hand h1) then 100000000 else 10000)"
    by (subst score_11111) simp_all
  finally have s1: "scoreOf (hand h1) = 15 * (if sameSuit (hand h1) then 100000000 else 10000)" .
  have "scoreOf (hand h2) = scoreOf ?K2"
  proof (rule scoreOf_values)
    show "validHand (hand h2)" using a by blast
    show "validHand ?K2" by (rule validHand_canon) simp_all
    show "mset (map cardValue (hand h2)) = mset (map cardValue ?K2)"
      using a by (simp only: values_canon)
    show "sameSuit (hand h2) = sameSuit ?K2" by simp
  qed
  also have "\<dots> = 20 * (if sameSuit (hand h2) then 100000000 else 10000)"
    by (subst score_11111) (simp_all add: highOf_def)
  finally have s2: "scoreOf (hand h2) = 20 * (if sameSuit (hand h2) then 100000000 else 10000)" .
  show "score (scoreHand h1) < score (scoreHand h2)"
    using a by (auto simp: score_scoreHand s1 s2)
qed

theorem straightType_windows_and_low_ace_witness:
  "straightType [3, 2, 1, 5, 4] = 1
   \<and> straightType [1, 13, 12, 11, 10] = 10
   \<and> straightType [2, 2, 3, 4, 5] = 0
   \<and> validHand (hand (handOf lowStraight)) \<and> validHand (hand (handOf sixStraight))
   \<and> mset (map cardValue (hand (handOf lowStraight))) = mset [1, 2, 3, 4, 5]
   \<and> mset (map cardValue (hand (handOf sixStraight))) = mset [2, 3, 4, 5, 6]
   \<and> \<not> sameSuit (hand (handOf lowStraight))
   \<and> score (scoreHand (handOf lowStraight)) < score (scoreHand (handOf sixStraight))"
proof -
  have w1: "(1::int) \<le> 1 \<and> (1::int) \<le> 9 \<and> mset [3, 2, 1, 5, 4] = mset [1, 1 + 1, 1 + 2, 1 + 3, 1 + (4::int)]"
    by simp
  have w2: "mset [1, 13, 12, 11, 10] = mset [10, 11, 12, 13, 1::int]"
    by simp
  have w3: "\<forall>j::int. 1 \<le> j \<and> j \<le> 9 \<longrightarrow> mset [2, 2, 3, 4, 5] \<noteq> mset [j, j + 1, j + 2, j + 3, j + 4]"
  proof (intro allI impI notI)
    fix j :: int
    assume "mset [2, 2, 3, 4, 5] = mset [j, j + 1, j + 2, j + 3, j + 4]"
    then have "sum_mset (mset [2, 2, 3, 4, 5 :: int]) = sum_mset (mset [j, j + 1, j + 2, j + 3, j + 4])"
      by simp
    then have "5 * j = 6" by simp
    then show False by presburger
  qed
  have w4: "mset [2, 2, 3, 4, 5] \<noteq> mset [10, 11, 12, 13, 1 :: int]"
  proof
    assume "mset [2, 2, 3, 4, 5] = mset [10, 11, 12, 13, 1 :: int]"
    then have "sum_mset (mset [2, 2, 3, 4, 5 :: int]) = sum_mset (mset [10, 11, 12, 13, 1])"
      by simp
    then show False by simp
  qed
  have v: "validHand (hand (handOf lowStraight))" "validHand (hand (handOf sixStraight))"
    by code_simp+
  have m: "mset (map cardValue (hand (handOf lowStraight))) = mset [1, 2, 3, 4, 5]"
    "mset (map cardValue (hand (handOf sixStraight))) = mset [2, 3, 4, 5, 6]"
    by code_simp+
  have n: "\<not> sameSuit (hand (handOf lowStraight))"
    by code_simp
  from w1 have r1: "straightType [3, 2, 1, 5, 4] = 1"
    using straightType_windows_and_low_ace [of 1 "[3, 2, 1, 5, 4]"] by blast
  from w2 have r2: "straightType [1, 13, 12, 11, 10] = 10"
    using straightType_windows_and_low_ace [of _ "[1, 13, 12, 11, 10]"] by blast
  from w3 w4 have r3: "straightType [2, 2, 3, 4, 5] = 0"
    using straightType_windows_and_low_ace [of _ "[2, 2, 3, 4, 5]"] by blast
  from v m n have r4: "score (scoreHand (handOf lowStraight)) < score (scoreHand (handOf sixStraight))"
    using straightType_windows_and_low_ace [of _ _ "handOf lowStraight" "handOf sixStraight"]
    by blast
  from r1 r2 r3 r4 v m n show ?thesis
    by blast
qed

text \<open>
  The claim as written fails where the low-ace straight is a straight flush and the
  straight from 2 is not: the former scores 1500000000 and the latter 200000.
\<close>

theorem low_ace_straight_flush_counterexample:
  "validHand (hand (handOf lowStraightFlush)) \<and> validHand (hand (handOf sixStraight))
   \<and> mset (map cardValue (hand (handOf lowStraightFlush))) = mset [1, 2, 3, 4, 5]
   \<and> mset (map cardValue (hand (handOf sixStraight))) = mset [2, 3, 4, 5, 6]
   \<and> score (scoreHand (handOf lowStraightFlush)) = 1500000000
   \<and> score (scoreHand (handOf sixStraight)) = 200000
   \<and> \<not> score (scoreHand (handOf lowStraightFlush)) < score (scoreHand (handOf sixStraight))"
  by code_simp
section \<open>The split pot\<close>

text \<open>
  Claim C8, as amended. In \<^verbatim>\<open>scoreHands\<close>, on an analysis whose cards are valid, let two
  different players that have not folded hold hands with the highest score of all hands
  scored, and let their private cards have equal tie-break scores (ten times the greater
  high value plus the other). If every player with a hand of the highest score has two
  private cards and a tie-break score not greater than theirs, then both are in the final
  \<^verbatim>\<open>winningPlayers\<close>. Whenever \<^verbatim>\<open>scoreHands\<close> resolves, no player is in that list twice,
  however many of the player's hands reach the highest score.
\<close>

theorem scoreHands_split_pot:
  "(analysisField st = Some cardsObj
      \<and> validHand (publicOf cardsObj)
      \<and> list_all (\<lambda>e. validHand (snd e)) (privateOf cardsObj)
      \<and> E = entriesOf (fst (getPlayers st)) (publicOf cardsObj) (forIn (privateOf cardsObj))
      \<and> a \<in> set E \<and> b \<in> set E \<and> winPlayer a \<noteq> winPlayer b
      \<and> score (winHand a) = best \<and> score (winHand b) = best
      \<and> list_all (\<lambda>e. score (winHand e) \<le> best) E
      \<and> privateScore (privateOf cardsObj) (privateID (winPlayer a)) = Some t
      \<and> privateScore (privateOf cardsObj) (privateID (winPlayer b)) = Some t
      \<and> list_all (\<lambda>e. score (winHand e) = best \<longrightarrow>
                    (case privateScore (privateOf cardsObj) (privateID (winPlayer e)) of
                       None \<Rightarrow> False | Some t' \<Rightarrow> t' \<le> t)) E
    \<longrightarrow> (\<exists>res ws. fst (scoreHands st cardsObj) = Inr res \<and> winningPlayers res = Some ws
           \<and> winPlayer a \<in> set ws \<and> winPlayer b \<in> set ws \<and> distinct ws))
   \<and> (fst (scoreHands st cardsObj) = Inr scored
    \<longrightarrow> (\<exists>ws. winningPlayers scored = Some ws \<and> distinct ws))"
proof (intro conjI impI)
  assume h: "analysisField st = Some cardsObj
      \<and> validHand (publicOf cardsObj)
      \<and> list_all (\<lambda>e. validHand (snd e)) (privateOf cardsObj)
      \<and> E = entriesOf (fst (getPlayers st)) (publicOf cardsObj) (forIn (privateOf cardsObj))
      \<and> a \<in> set E \<and> b \<in> set E \<and> winPlayer a \<noteq> winPlayer b
      \<and> score (winHand a) = best \<and> score (winHand b) = best
      \<and> list_all (\<lambda>e. score (winHand e) \<le> best) E
      \<and> privateScore (privateOf cardsObj) (privateID (winPlayer a)) = Some t
      \<and> privateScore (privateOf cardsObj) (privateID (winPlayer b)) = Some t
      \<and> list_all (\<lambda>e. score (winHand e) = best \<longrightarrow>
                    (case privateScore (privateOf cardsObj) (privateID (winPlayer e)) of
                       None \<Rightarrow> False | Some t' \<Rightarrow> t' \<le> t)) E"
  show "\<exists>res ws. fst (scoreHands st cardsObj) = Inr res \<and> winningPlayers res = Some ws
           \<and> winPlayer a \<in> set ws \<and> winPlayer b \<in> set ws \<and> distinct ws"
    by (rule scoreHands_tied_players [of st cardsObj E a b best t]) (use h in blast)+
next
  assume "fst (scoreHands st cardsObj) = Inr scored"
  then show "\<exists>ws. winningPlayers scored = Some ws \<and> distinct ws"
    by (rule scoreHands_distinct)
qed

theorem scoreHands_split_pot_witness:
  "analysisField (showdownAnalyzer 2) = Some (showdownCards 2)
   \<and> boardEntry alice 2 \<in> set (entriesOf (fst (getPlayers (showdownAnalyzer 2)))
         (publicOf (showdownCards 2)) (forIn (privateOf (showdownCards 2))))
   \<and> boardEntry bob 2 \<in> set (entriesOf (fst (getPlayers (showdownAnalyzer 2)))
         (publicOf (showdownCards 2)) (forIn (privateOf (showdownCards 2))))
   \<and> score (winHand (boardEntry alice 2)) = 60000000000
   \<and> score (winHand (boardEntry bob 2)) = 60000000000
   \<and> privateScore (privateOf (showdownCards 2)) ''P1'' = Some 135
   \<and> privateScore (privateOf (showdownCards 2)) ''P2'' = Some 135
   \<and> privateScore (privateOf (showdownCards 2)) ''P4'' = Some 132
   \<and> (\<exists>res ws. fst (scoreHands (showdownAnalyzer 2) (showdownCards 2)) = Inr res
         \<and> winningPlayers res = Some ws \<and> alice \<in> set ws \<and> bob \<in> set ws \<and> distinct ws)"
proof -
  let ?E = "entriesOf (fst (getPlayers (showdownAnalyzer 2)))
         (publicOf (showdownCards 2)) (forIn (privateOf (showdownCards 2)))"
  have h1: "analysisField (showdownAnalyzer 2) = Some (showdownCards 2)"
    by (simp add: showdownAnalyzer_def)
  have h2: "validHand (publicOf (showdownCards 2))"
    by code_simp
  have h3: "list_all (\<lambda>e. validHand (snd e)) (privateOf (showdownCards 2))"
    by code_simp
  have h4: "boardEntry alice 2 \<in> set ?E" "boardEntry bob 2 \<in> set ?E"
    by code_simp+
  have h5: "winPlayer (boardEntry alice 2) \<noteq> winPlayer (boardEntry bob 2)"
    by code_simp
  have h6: "score (winHand (boardEntry alice 2)) = 60000000000"
    "score (winHand (boardEntry bob 2)) = 60000000000"
    by code_simp+
  have h7: "list_all (\<lambda>e. score (winHand e) \<le> 60000000000) ?E"
    by code_simp
  have h8: "privateScore (privateOf (showdownCards 2)) (privateID (winPlayer (boardEntry alice 2))) = Some 135"
    "privateScore (privateOf (showdownCards 2)) (privateID (winPlayer (boardEntry bob 2))) = Some 135"
    by code_simp+
  have h9: "list_all (\<lambda>e. score (winHand e) = 60000000000 \<longrightarrow>
                    (case privateScore (privateOf (showdownCards 2)) (privateID (winPlayer e)) of
                       None \<Rightarrow> False | Some t' \<Rightarrow> t' \<le> 135)) ?E"
    by code_simp
  have p: "privateScore (privateOf (showdownCards 2)) ''P1'' = Some 135"
    "privateScore (privateOf (showdownCards 2)) ''P2'' = Some 135"
    "privateScore (privateOf (showdownCards 2)) ''P4'' = Some 132"
    by code_simp+
  have w: "winPlayer (boardEntry alice 2) = alice" "winPlayer (boardEntry bob 2) = bob"
    by (simp_all add: boardEntry_def)
  have "\<exists>res ws. fst (scoreHands (showdownAnalyzer 2) (showdownCards 2)) = Inr res
         \<and> winningPlayers res = Some ws
         \<and> winPlayer (boardEntry alice 2) \<in> set ws \<and> winPlayer (boardEntry bob 2) \<in> set ws
         \<and> distinct ws"
    using scoreHands_split_pot [of "showdownAnalyzer 2" "showdownCards 2" ?E
        "boardEntry alice 2" "boardEntry bob 2" 60000000000 135]
      h1 h2 h3 h4 h5 h6 h7 h8 h9
    by blast
  then have "\<exists>res ws. fst (scoreHands (showdownAnalyzer 2) (showdownCards 2)) = Inr res
         \<and> winningPlayers res = Some ws \<and> alice \<in> set ws \<and> bob \<in> set ws \<and> distinct ws"
    unfolding w .
  with h1 h4 h6 p show ?thesis
    by blast
qed

text \<open>
  The claim as written fails when a third player shares the highest score and has the
  greater tie-break score: on a board that is a royal flush, two players holding a king
  and a five and a third holding a king and a nine, only the third is a winning player.
\<close>

theorem scoreHands_third_player_counterexample:
  "boardEntry alice 9 \<in> set (entriesOf (fst (getPlayers (showdownAnalyzer 9)))
         (publicOf (showdownCards 9)) (forIn (privateOf (showdownCards 9))))
   \<and> boardEntry bob 9 \<in> set (entriesOf (fst (getPlayers (showdownAnalyzer 9)))
         (publicOf (showdownCards 9)) (forIn (privateOf (showdownCards 9))))
   \<and> hasFolded alice = False \<and> hasFolded bob = False
   \<and> score (winHand (boardEntry alice 9)) = 60000000000
   \<and> score (winHand (boardEntry bob 9)) = 60000000000
   \<and> list_all (\<lambda>e. score (winHand e) \<le> 60000000000)
        (entriesOf (fst (getPlayers (showdownAnalyzer 9)))
           (publicOf (showdownCards 9)) (forIn (privateOf (showdownCards 9))))
   \<and> privateScore (privateOf (showdownCards 9)) ''P1'' = Some 135
   \<and> privateScore (privateOf (showdownCards 9)) ''P2'' = Some 135
   \<and> (case fst (scoreHands (showdownAnalyzer 9) (showdownCards 9)) of
         Inl failure \<Rightarrow> None
       | Inr scored \<Rightarrow> winningPlayers scored) = Some [dave]
   \<and> alice \<notin> set [dave] \<and> bob \<notin> set [dave]"
  by code_simp
end
